theory Spec2Isabelle
  imports Complex_Main "HOL-Library.Log_Nat"
begin

section \<open>Python values that the program computes with\<close>

text \<open>
  The exceptions of the Python run-time that the modelled code can raise.
  A computation that can raise returns \<open>py_error + 'a\<close>, with \<open>Inl\<close> the exception.
\<close>

datatype py_error = IndexError | ValueError

subsection \<open>Double-precision floating point\<close>

text \<open>
  A Python \<open>float\<close> (and a NumPy \<open>float64\<close>) is an IEEE-754 binary64 number. Every finite
  double is a rational, so finite doubles are modelled as the rationals that are
  representable, and each arithmetic operation as the exact rational operation followed by
  rounding to the nearest representable value, ties to the even significand
  (\<open>float64_round\<close>). The significand has 53 bits; below \<open>2 powi (-1022)\<close> the spacing stays
  \<open>2 powi (-1074)\<close> (gradual underflow). Overflow to infinity (magnitudes from \<open>2 ^ 1024\<close>)
  and NaN are not modelled: every quantity of this program is far below that bound.
\<close>

definition round_half_even :: "rat \<Rightarrow> int" where
  "round_half_even x =
     (let f = \<lfloor>x\<rfloor>; d = x - of_int f
      in if d < 1 / 2 then f
         else if 1 / 2 < d then f + 1
         else if even f then f else f + 1)"

text \<open>\<open>ilog2 x\<close> is the integer \<open>k\<close> with \<open>2 powi k \<le> x < 2 powi (k + 1)\<close>, for \<open>0 < x\<close>.\<close>

definition ilog2 :: "rat \<Rightarrow> int" where
  "ilog2 x =
     (let k = bitlen (fst (quotient_of x)) - bitlen (snd (quotient_of x))
      in if 2 powi k \<le> x then k else k - 1)"

definition float64_exponent :: "rat \<Rightarrow> int" where
  "float64_exponent x = max (ilog2 \<bar>x\<bar> - 52) (- 1074)"

definition float64_round :: "rat \<Rightarrow> rat" where
  "float64_round x =
     (if x = 0 then 0
      else of_int (round_half_even (x / 2 powi float64_exponent x)) * 2 powi float64_exponent x)"

definition float_of_int :: "int \<Rightarrow> rat" where
  "float_of_int n = float64_round (of_int n)"

definition fadd :: "rat \<Rightarrow> rat \<Rightarrow> rat" where
  "fadd a b = float64_round (a + b)"

definition fsub :: "rat \<Rightarrow> rat \<Rightarrow> rat" where
  "fsub a b = float64_round (a - b)"

definition fmul :: "rat \<Rightarrow> rat \<Rightarrow> rat" where
  "fmul a b = float64_round (a * b)"

definition fdiv :: "rat \<Rightarrow> rat \<Rightarrow> rat" where
  "fdiv a b = float64_round (a / b)"


text \<open>
  \<open>round(x, ndigits)\<close> of Python on a float: the decimal value of \<open>x\<close> is rounded
  half-to-even at \<open>ndigits\<close> places exactly, and the result is the double nearest to
  that decimal.
\<close>

definition py_round :: "rat \<Rightarrow> nat \<Rightarrow> rat" where
  "py_round x ndigits =
     float64_round (of_int (round_half_even (x * 10 ^ ndigits)) / 10 ^ ndigits)"

subsection \<open>Lists and strings\<close>

text \<open>\<open>xs[i]\<close>: a negative index counts from the end, anything out of range raises.\<close>

definition getitem :: "'a list \<Rightarrow> int \<Rightarrow> py_error + 'a" where
  "getitem xs i =
     (if 0 \<le> i \<and> i < int (length xs) then Inr (xs ! nat i)
      else if i < 0 \<and> - int (length xs) \<le> i then Inr (xs ! nat (int (length xs) + i))
      else Inl IndexError)"

text \<open>
  A character of the model is a Unicode code point below 256, and a string is a list of
  them. On these code points \<open>str.lower\<close> maps \<open>A\<close>..\<open>Z\<close> (65..90) and the
  capital letters 192..214 and 216..222 to the code point 32 above and leaves the rest,
  and \<open>str.isspace\<close> holds of 9..13, 28..32, 133 and 160; \<open>str.strip\<close> removes the
  characters of \<open>isspace\<close> at both ends. Code points from 256 are not modelled.
\<close>

definition lower_char :: "char \<Rightarrow> char" where
  "lower_char c =
     (let k = (of_char c :: nat)
      in if (65 \<le> k \<and> k \<le> 90) \<or> (192 \<le> k \<and> k \<le> 214) \<or> (216 \<le> k \<and> k \<le> 222)
         then char_of (k + 32) else c)"

definition lower :: "string \<Rightarrow> string" where
  "lower s = map lower_char s"

definition isspace :: "char \<Rightarrow> bool" where
  "isspace c =
     (let k = (of_char c :: nat)
      in (9 \<le> k \<and> k \<le> 13) \<or> (28 \<le> k \<and> k \<le> 32) \<or> k = 133 \<or> k = 160)"

definition strip :: "string \<Rightarrow> string" where
  "strip s = rev (dropWhile isspace (rev (dropWhile isspace s)))"

fun join :: "string \<Rightarrow> string list \<Rightarrow> string" where
  "join sep [] = []"
| "join sep [x] = x"
| "join sep (x # y # ys) = x @ sep @ join sep (y # ys)"




section \<open>The sampler: numpy.linspace with an integer dtype\<close>

text \<open>
  \<open>np.linspace(start, stop, num, dtype=int)\<close>, as NumPy computes it for scalar bounds
  (\<open>endpoint=True\<close>): the bounds become doubles, \<open>step = (stop - start) / (num - 1)\<close>,
  the samples are \<open>arange(0, num) * step + start\<close> in double precision, the last sample is
  overwritten with \<open>stop\<close>, and the integer dtype takes the floor of every sample.
  A negative \<open>num\<close> raises \<open>ValueError\<close>. When the step underflows to zero the samples are
  \<open>arange(0, num) / (num - 1) * (stop - start)\<close> instead; with fewer than two samples
  nothing is divided. The conversion of the floored doubles to 64-bit integers is exact
  for the magnitudes of this program and is modelled on unbounded integers.
\<close>

definition linspace_int :: "int \<Rightarrow> int \<Rightarrow> int \<Rightarrow> py_error + int list" where
  "linspace_int start stop num =
     (if num < 0 then Inl ValueError
      else
        let divisor = num - 1;
            start_f = fmul (float_of_int start) 1;
            stop_f = fmul (float_of_int stop) 1;
            delta = fsub stop_f start_f;
            y = map float_of_int [0..num - 1];
            y1 = (if 0 < divisor then
                    let step = fdiv delta (float_of_int divisor)
                    in if step = 0
                       then map (\<lambda>v. fmul (fdiv v (float_of_int divisor)) delta) y
                       else map (\<lambda>v. fmul v step) y
                  else map (\<lambda>v. fmul v delta) y);
            y2 = map (\<lambda>v. fadd v start_f) y1;
            y3 = (if 1 < num then y2[nat (num - 1) := stop_f] else y2)
        in Inr (map floor y3))"

section \<open>The timing harness (app.py)\<close>

subsection \<open>binary_search_work\<close>

text \<open>
  One iteration of the \<open>while left <= right\<close> loop on the state \<open>(left, right)\<close>: it
  returns, raises (the read \<open>arr[mid]\<close>), or continues on a new state.
\<close>

datatype loop_step = Continue "int \<times> int" | Return int | Raise py_error

definition bs_step :: "'a::ord list \<Rightarrow> 'a \<Rightarrow> int \<times> int \<Rightarrow> loop_step" where
  "bs_step arr target s =
     (let left = fst s; right = snd s
      in if left \<le> right then
           (let mid = left + (right - left) div 2
            in case getitem arr mid of
                 Inl e \<Rightarrow> Raise e
               | Inr v \<Rightarrow>
                   if v = target then Return mid
                   else if v < target then Continue (mid + 1, right)
                   else Continue (left, mid - 1))
         else Return (- 1))"

function bs_loop :: "'a::ord list \<Rightarrow> 'a \<Rightarrow> int \<times> int \<Rightarrow> py_error + int" where
  "bs_loop arr target s =
     (case bs_step arr target s of
        Continue s' \<Rightarrow> bs_loop arr target s'
      | Return i \<Rightarrow> Inr i
      | Raise e \<Rightarrow> Inl e)"
  by pat_completeness auto
termination
  by (relation "measure (\<lambda>(arr, target, s). nat (snd s - fst s + 1))")
     (auto simp: bs_step_def Let_def split: if_splits sum.splits)

definition binary_search_work :: "'a::ord list \<Rightarrow> 'a \<Rightarrow> py_error + int" where
  "binary_search_work arr target = bs_loop arr target (0, int (length arr) - 1)"

text \<open>
  The same loop with a bound on the number of iterations: \<open>None\<close> when the bound is
  reached before the loop has returned or raised.
\<close>

fun bs_run :: "nat \<Rightarrow> 'a::ord list \<Rightarrow> 'a \<Rightarrow> int \<times> int \<Rightarrow> (py_error + int) option" where
  "bs_run 0 arr target s = None"
| "bs_run (Suc k) arr target s =
     (case bs_step arr target s of
        Continue s' \<Rightarrow> bs_run k arr target s'
      | Return i \<Rightarrow> Some (Inr i)
      | Raise e \<Rightarrow> Some (Inl e))"

text \<open>The loop states that a run of \<open>binary_search_work\<close> passes through.\<close>

inductive bs_reachable :: "'a::ord list \<Rightarrow> 'a \<Rightarrow> int \<times> int \<Rightarrow> bool"
  for arr :: "'a list" and target :: 'a where
  bs_init: "bs_reachable arr target (0, int (length arr) - 1)"
| bs_next: "bs_reachable arr target s \<Longrightarrow> bs_step arr target s = Continue s'
             \<Longrightarrow> bs_reachable arr target s'"

code_pred bs_reachable .


subsection \<open>The world outside the program\<close>

text \<open>
  The clock and the random generator are given by the environment:
  \<open>perf_counter env k\<close> is the double that the \<open>k\<close>-th call of \<open>time.perf_counter()\<close>
  returns, \<open>rng env k j\<close> the \<open>j\<close>-th raw number of the \<open>k\<close>-th call of the generator,
  \<open>savefig env\<close> the base64 text of the PNG that matplotlib renders for the handler.
\<close>

record env =
  perf_counter :: "nat \<Rightarrow> rat"
  rng :: "nat \<Rightarrow> nat \<Rightarrow> nat"
  savefig :: "string \<Rightarrow> int list \<Rightarrow> rat list \<Rightarrow> string"

text \<open>
  Modelled from the spec: the module \<open>factorial\<close>, from which app.py imports the four
  algorithm functions \<open>linear_search\<close>, \<open>bubble_sort\<close>, \<open>binary_search\<close> and
  \<open>nested_loops\<close>, is not among the sources. The spec describes them as placeholders
  that burn time proportional to \<open>n\<close> or \<open>n\<^sup>2\<close> and are timed by size alone, so a
  call of one of them is an event of the trace that returns normally.
\<close>

datatype algorithm = linear_search | bubble_sort | binary_search | nested_loops

text \<open>What a \<open>timed_func\<close> closure of \<open>measure_times\<close> calls when it is run.\<close>

datatype timed = Call_binary_search_work "int list" int | Call_algorithm algorithm int

datatype event = Clock_read nat | Invoke timed

text \<open>
  The input size that a closure runs on, and the closures that a trace invoked, in the
  order of their invocation.
\<close>

fun timed_size :: "timed \<Rightarrow> int" where
  "timed_size (Call_binary_search_work arr target) = int (length arr)"
| "timed_size (Call_algorithm f n) = n"

fun invocations :: "event list \<Rightarrow> timed list" where
  "invocations [] = []"
| "invocations (Clock_read k # es) = invocations es"
| "invocations (Invoke tf # es) = tf # invocations es"

record world =
  reads :: nat
  draws :: nat
  trace :: "event list"

definition time_perf_counter :: "env \<Rightarrow> world \<Rightarrow> rat \<times> world" where
  "time_perf_counter env w =
     (perf_counter env (reads w),
      w\<lparr>reads := Suc (reads w), trace := trace w @ [Clock_read (reads w)]\<rparr>)"

text \<open>
  \<open>np.random.randint(low, high, n)\<close>: \<open>n\<close> integers of \<open>[low, high)\<close>; a negative size
  or an empty range raises \<open>ValueError\<close>.
\<close>

definition random_randint :: "env \<Rightarrow> int \<Rightarrow> int \<Rightarrow> int \<Rightarrow> world \<Rightarrow> py_error + (int list \<times> world)" where
  "random_randint env low high n w =
     (if n < 0 \<or> high \<le> low then Inl ValueError
      else Inr (map (\<lambda>j. low + int (rng env (draws w) j) mod (high - low)) [0..<nat n],
                w\<lparr>draws := Suc (draws w)\<rparr>))"

subsection \<open>measure_times\<close>

text \<open>
  The part of the loop body before the measurement: the data is prepared and the closure
  \<open>timed_func\<close> is built. \<open>sorted\<close> is Python's stable sort, \<open>arr[-1]\<close> raises on the
  empty list. The final \<open>else\<close> of the source is unreachable for the four imported
  functions.
\<close>

definition prepare :: "env \<Rightarrow> algorithm \<Rightarrow> int \<Rightarrow> world \<Rightarrow> py_error + (timed \<times> world)" where
  "prepare env algorithm_func n w =
     (if algorithm_func = binary_search then
        (case random_randint env 0 100000 n w of
           Inl e \<Rightarrow> Inl e
         | Inr (xs, w') \<Rightarrow>
             (let arr = sort xs
              in case getitem arr (- 1) of
                   Inl e \<Rightarrow> Inl e
                 | Inr target \<Rightarrow> Inr (Call_binary_search_work arr target, w')))
      else if algorithm_func = bubble_sort then Inr (Call_algorithm bubble_sort n, w)
      else if algorithm_func = linear_search then Inr (Call_algorithm linear_search n, w)
      else if algorithm_func = nested_loops then Inr (Call_algorithm nested_loops n, w)
      else Inr (Call_algorithm algorithm_func n, w))"

text \<open>
  The closure \<open>timed_func\<close> that the loop body builds for the size \<open>n\<close> when the
  random generator has been called \<open>d\<close> times before: for \<open>binary_search\<close> the call
  of \<open>binary_search_work\<close> on the sorted draw with its last element as target, for the
  other functions the call of the function on \<open>n\<close>.
\<close>

abbreviation timed_func :: "env \<Rightarrow> algorithm \<Rightarrow> int \<Rightarrow> nat \<Rightarrow> timed" where
  "timed_func env algorithm_func n d \<equiv>
     (if algorithm_func = binary_search
      then Call_binary_search_work
             (sort (map (\<lambda>j. int (rng env d j) mod 100000) [0..<nat n]))
             (last (sort (map (\<lambda>j. int (rng env d j) mod 100000) [0..<nat n])))
      else Call_algorithm algorithm_func n)"

text \<open>Running the closure: its result is dropped, an exception of it propagates.\<close>

definition run_timed :: "timed \<Rightarrow> world \<Rightarrow> py_error + world" where
  "run_timed tf w =
     (case tf of
        Call_binary_search_work arr target \<Rightarrow>
          (case binary_search_work arr target of
             Inl e \<Rightarrow> Inl e
           | Inr i \<Rightarrow> Inr (w\<lparr>trace := trace w @ [Invoke tf]\<rparr>))
      | Call_algorithm f n \<Rightarrow> Inr (w\<lparr>trace := trace w @ [Invoke tf]\<rparr>))"

text \<open>The \<open>for n in input_sizes\<close> loop, with the list \<open>times\<close> built so far (\<open>times_list\<close>).\<close>

fun measure_loop ::
  "env \<Rightarrow> algorithm \<Rightarrow> int list \<Rightarrow> rat list \<Rightarrow> world \<Rightarrow> py_error + (rat list \<times> world)" where
  "measure_loop env algorithm_func [] times_list w = Inr (times_list, w)"
| "measure_loop env algorithm_func (n # ns) times_list w =
     (case prepare env algorithm_func n w of
        Inl e \<Rightarrow> Inl e
      | Inr (tf, w1) \<Rightarrow>
          (let (start, w2) = time_perf_counter env w1
           in case run_timed tf w2 of
                Inl e \<Rightarrow> Inl e
              | Inr w3 \<Rightarrow>
                  (let (end_time, w4) = time_perf_counter env w3
                   in measure_loop env algorithm_func ns
                        (times_list @ [fsub end_time start]) w4)))"

definition measure_times ::
  "env \<Rightarrow> algorithm \<Rightarrow> int \<Rightarrow> int \<Rightarrow> world \<Rightarrow> py_error + ((int list \<times> rat list) \<times> world)" where
  "measure_times env algorithm_func max_n num_steps w =
     (case linspace_int 10 max_n num_steps of
        Inl e \<Rightarrow> Inl e
      | Inr input_sizes \<Rightarrow>
          (case measure_loop env algorithm_func input_sizes [] w of
             Inl e \<Rightarrow> Inl e
           | Inr (times_list, w') \<Rightarrow> Inr ((input_sizes, times_list), w')))"


subsection \<open>The request handler analyze\<close>

text \<open>The dictionary \<open>ALGORITHMS\<close>, in the order of its keys.\<close>

definition ALGORITHMS :: "(string \<times> algorithm) list" where
  "ALGORITHMS =
     [(''linear'', linear_search),
      (''linearsearch'', linear_search),
      (''bubble'', bubble_sort),
      (''bubblesort'', bubble_sort),
      (''bubble_sort'', bubble_sort),
      (''binary'', binary_search),
      (''binarysearch'', binary_search),
      (''nested'', nested_loops),
      (''nestedloops'', nested_loops),
      (''exponential'', nested_loops)]"

text \<open>
  The query string as \<open>request.args.get\<close> sees it: \<open>None\<close> is a parameter that is
  absent, or (for \<open>type=int\<close>) one whose text is not an integer; both give the default.
\<close>

record request =
  arg_algo :: "string option"
  arg_n :: "int option"
  arg_steps :: "int option"

record context_json =
  ctx_algorithm :: string
  ctx_max_n :: int
  ctx_steps :: int
  ctx_execution_time_seconds :: rat

record data_json =
  data_input_sizes :: "int list"
  data_times_seconds :: "rat list"

text \<open>
  The JSON body of the response: \<open>Error_json status message\<close>, or
  \<open>Success_json status context data graph_base64\<close>. The handler returns it with the
  HTTP status code (200 when the source gives none).
\<close>

datatype json_body =
  Error_json string string
| Success_json string context_json data_json string

definition args_get :: "'a option \<Rightarrow> 'a \<Rightarrow> 'a" where
  "args_get v dflt = (case v of None \<Rightarrow> dflt | Some x \<Rightarrow> x)"

definition analyze :: "env \<Rightarrow> request \<Rightarrow> world \<Rightarrow> py_error + ((json_body \<times> nat) \<times> world)" where
  "analyze env req w =
     (let (start_total, w1) = time_perf_counter env w;
          algo = strip (lower (args_get (arg_algo req) ''linear''));
          n = args_get (arg_n req) 1000;
          steps = args_get (arg_steps req) 10;
          n = max 100 (min n 20000);
          steps = max 4 (min steps 30)
      in case map_of ALGORITHMS algo of
           None \<Rightarrow>
             Inr ((Error_json ''error''
                     (''Unknown algorithm. Supported: '' @ join '', '' (map fst ALGORITHMS)),
                   400), w1)
         | Some func \<Rightarrow>
             (case measure_times env func n steps w1 of
                Inl e \<Rightarrow> Inl e
              | Inr ((input_sizes, run_times), w2) \<Rightarrow>
                  (let img_base64 = savefig env algo input_sizes run_times;
                       (now, w3) = time_perf_counter env w2;
                       total_time = fsub now start_total
                   in Inr ((Success_json ''success''
                              \<lparr>ctx_algorithm = algo, ctx_max_n = n, ctx_steps = steps,
                               ctx_execution_time_seconds = py_round total_time 5\<rparr>
                              \<lparr>data_input_sizes = input_sizes,
                               data_times_seconds = map (\<lambda>t. py_round t 6) run_times\<rparr>
                              img_base64,
                            200), w3))))"

section \<open>Persistence (sqlachemy.py)\<close>












section \<open>Properties\<close>

subsection \<open>Rounding to double precision\<close>

lemma round_half_even_bounds:
  "\<bar>of_int (round_half_even x) - x\<bar> \<le> 1 / 2"
  unfolding round_half_even_def Let_def
  by (auto simp: abs_if) linarith+

lemma round_half_even_of_int: "round_half_even (of_int n) = n"
  by (simp add: round_half_even_def)

lemma round_half_even_mono:
  assumes "x \<le> y" shows "round_half_even x \<le> round_half_even y"
proof (cases "\<lfloor>x\<rfloor> = \<lfloor>y\<rfloor>")
  case True
  then show ?thesis using assms
    by (auto simp: round_half_even_def Let_def)
next
  case False
  then have "\<lfloor>x\<rfloor> + 1 \<le> \<lfloor>y\<rfloor>" using floor_mono[OF assms] by linarith
  moreover have "round_half_even x \<le> \<lfloor>x\<rfloor> + 1"
    by (auto simp: round_half_even_def Let_def)
  moreover have "\<lfloor>y\<rfloor> \<le> round_half_even y"
    by (auto simp: round_half_even_def Let_def)
  ultimately show ?thesis by linarith
qed

lemma ilog2_bounds:
  assumes "0 < x"
  shows "2 powi ilog2 x \<le> x" and "x < 2 powi (ilog2 x + 1)"
proof -
  obtain p q where pq: "quotient_of x = (p, q)" by (cases "quotient_of x")
  have q: "0 < q" using pq by (rule quotient_of_denom_pos)
  have x: "x = of_int p / of_int q" using pq by (rule quotient_of_div)
  have p: "0 < p" using assms q x by (simp add: zero_less_divide_iff)
  define k where "k = bitlen p - bitlen q"
  have bp: "1 \<le> bitlen p" and bq: "1 \<le> bitlen q"
    using p q bitlen_eq_zero_iff[of p] bitlen_eq_zero_iff[of q] bitlen_nonneg[of p] bitlen_nonneg[of q]
    by linarith+
  have "p < 2 ^ nat (bitlen p)" using bitlen_bounds[OF p] by simp
  then have "(of_int p :: rat) < of_int (2 ^ nat (bitlen p))" by (simp only: of_int_less_iff)
  then have pu: "(of_int p :: rat) < 2 powi bitlen p"
    using bp by (simp add: power_int_nonneg_exp)
  have "2 ^ nat (bitlen q - 1) \<le> q" using bitlen_bounds[OF q] by simp
  then have "(of_int (2 ^ nat (bitlen q - 1)) :: rat) \<le> of_int q" by (simp only: of_int_le_iff)
  then have ql: "(2 powi (bitlen q - 1) :: rat) \<le> of_int q"
    using bq by (simp add: power_int_nonneg_exp)
  have "x < 2 powi bitlen p / 2 powi (bitlen q - 1)"
    unfolding x using pu ql q p
    by (intro frac_less) auto
  also have "\<dots> = 2 powi (k + 1)"
    by (simp add: k_def power_int_diff power_int_add)
  finally have up: "x < 2 powi (k + 1)" .
  show "2 powi ilog2 x \<le> x"
  proof (cases "2 powi k \<le> x")
    case True then show ?thesis by (simp add: ilog2_def pq k_def)
  next
    case False
    have "2 ^ nat (bitlen p - 1) \<le> p" using bitlen_bounds[OF p] by simp
    then have "(of_int (2 ^ nat (bitlen p - 1)) :: rat) \<le> of_int p" by (simp only: of_int_le_iff)
    then have pl: "(2 powi (bitlen p - 1) :: rat) \<le> of_int p"
      using bp by (simp add: power_int_nonneg_exp)
    have "q < 2 ^ nat (bitlen q)" using bitlen_bounds[OF q] by simp
    then have "(of_int q :: rat) < of_int (2 ^ nat (bitlen q))" by (simp only: of_int_less_iff)
    then have qu: "(of_int q :: rat) < 2 powi bitlen q"
      using bq by (simp add: power_int_nonneg_exp)
    have "2 powi (k - 1) = (2 powi (bitlen p - 1) :: rat) / 2 powi bitlen q"
      by (simp add: k_def power_int_diff power_int_add)
    also have "\<dots> \<le> x"
      unfolding x using pl qu q p
      by (intro frac_le) auto
    finally show ?thesis using False by (simp add: ilog2_def pq k_def)
  qed
  show "x < 2 powi (ilog2 x + 1)"
  proof (cases "2 powi k \<le> x")
    case True then show ?thesis using up by (simp add: ilog2_def pq k_def)
  next
    case False then show ?thesis by (simp add: ilog2_def pq k_def)
  qed
qed

lemma ilog2_mono:
  assumes "0 < x" "x \<le> y"
  shows "ilog2 x \<le> ilog2 y"
proof -
  have "(2::rat) powi ilog2 x \<le> x" using ilog2_bounds(1)[OF assms(1)] .
  also have "x \<le> y" by fact
  also have "y < 2 powi (ilog2 y + 1)" using ilog2_bounds(2)[of y] assms by simp
  finally have "(2::rat) powi ilog2 x < 2 powi (ilog2 y + 1)" .
  then have "ilog2 x < ilog2 y + 1"
    by (metis linorder_not_less power_int_increasing one_le_numeral)
  then show ?thesis by simp
qed

lemma ilog2_eqI:
  assumes "2 powi k \<le> x" "x < 2 powi (k + 1)"
  shows "ilog2 x = k"
proof -
  have pos: "0 < x" using assms(1) by (smt (verit) zero_less_power_int zero_less_numeral less_le_trans)
  have "(2::rat) powi ilog2 x < 2 powi (k + 1)"
    using ilog2_bounds(1)[OF pos] assms(2) by simp
  then have a: "ilog2 x < k + 1"
    by (metis linorder_not_less power_int_increasing one_le_numeral)
  have "(2::rat) powi k < 2 powi (ilog2 x + 1)"
    using ilog2_bounds(2)[OF pos] assms(1) by simp
  then have b: "k < ilog2 x + 1"
    by (metis linorder_not_less power_int_increasing one_le_numeral)
  from a b show ?thesis by simp
qed


lemma round_half_even_nonneg: "0 \<le> x \<Longrightarrow> 0 \<le> round_half_even x"
  using round_half_even_mono[of 0 x] round_half_even_of_int[of 0] by simp

lemma float64_exponent_mono:
  assumes "0 < x" "x \<le> y"
  shows "float64_exponent x \<le> float64_exponent y"
  using ilog2_mono[OF assms] assms by (simp add: float64_exponent_def)

lemma float64_round_nonneg:
  assumes "0 \<le> x"
  shows "0 \<le> float64_round x"
proof (cases "x = 0")
  case True then show ?thesis by (simp add: float64_round_def)
next
  case False
  have "0 \<le> x / 2 powi float64_exponent x" using assms by simp
  then have "0 \<le> round_half_even (x / 2 powi float64_exponent x)"
    by (rule round_half_even_nonneg)
  then show ?thesis using False by (simp add: float64_round_def)
qed

lemma float64_mantissa_bounds:
  assumes "0 < x"
  shows "x / 2 powi float64_exponent x < 2 ^ 53"
    and "- 1074 < float64_exponent x \<Longrightarrow> 2 ^ 52 \<le> x / 2 powi float64_exponent x"
proof -
  let ?e = "float64_exponent x"
  have e: "ilog2 x - 52 \<le> ?e" using assms by (simp add: float64_exponent_def)
  have "x < 2 powi (ilog2 x + 1)" using ilog2_bounds(2)[OF assms] .
  also have "\<dots> \<le> 2 powi (?e + 53)"
    using e by (intro power_int_increasing) auto
  also have "\<dots> = 2 powi ?e * 2 ^ 53"
    by (simp add: power_int_add)
  finally show "x / 2 powi ?e < 2 ^ 53"
    by (simp add: pos_divide_less_eq mult.commute)
  assume "- 1074 < ?e"
  then have e': "?e = ilog2 x - 52" using assms by (simp add: float64_exponent_def)
  have "(2::rat) powi ?e * 2 ^ 52 = 2 powi (?e + 52)" by (simp add: power_int_add)
  also have "\<dots> = 2 powi ilog2 x" using e' by simp
  also have "\<dots> \<le> x" using ilog2_bounds(1)[OF assms] .
  finally show "2 ^ 52 \<le> x / 2 powi ?e"
    by (simp add: pos_le_divide_eq mult.commute)
qed

lemma float64_round_mono:
  assumes "0 \<le> x" "x \<le> y"
  shows "float64_round x \<le> float64_round y"
proof (cases "x = 0")
  case True
  then show ?thesis using float64_round_nonneg[of y] assms by (simp add: float64_round_def)
next
  case False
  then have x: "0 < x" and y: "0 < y" using assms by auto
  let ?ex = "float64_exponent x" and ?ey = "float64_exponent y"
  have le: "?ex \<le> ?ey" using float64_exponent_mono[OF x assms(2)] .
  have rx: "float64_round x = of_int (round_half_even (x / 2 powi ?ex)) * 2 powi ?ex"
    using x by (simp add: float64_round_def)
  have ry: "float64_round y = of_int (round_half_even (y / 2 powi ?ey)) * 2 powi ?ey"
    using y by (simp add: float64_round_def)
  show ?thesis
  proof (cases "?ex = ?ey")
    case True
    have "x / 2 powi ?ey \<le> y / 2 powi ?ey" using assms(2) by (simp add: divide_right_mono)
    then have "round_half_even (x / 2 powi ?ey) \<le> round_half_even (y / 2 powi ?ey)"
      by (rule round_half_even_mono)
    then have "(of_int (round_half_even (x / 2 powi ?ey)) :: rat)
                 \<le> of_int (round_half_even (y / 2 powi ?ey))" by simp
    then show ?thesis unfolding rx ry True
      by (intro mult_right_mono) auto
  next
    case False
    with le have lt: "?ex + 1 \<le> ?ey" by simp
    then have big: "- 1074 < ?ey" using x by (simp add: float64_exponent_def)
    have "x / 2 powi ?ex \<le> 2 ^ 53" using float64_mantissa_bounds(1)[OF x] by simp
    then have "round_half_even (x / 2 powi ?ex) \<le> round_half_even (of_int (2 ^ 53))"
      by (intro round_half_even_mono) simp
    then have "round_half_even (x / 2 powi ?ex) \<le> 2 ^ 53"
      by (simp only: round_half_even_of_int)
    then have "(of_int (round_half_even (x / 2 powi ?ex)) :: rat) \<le> of_int (2 ^ 53)"
      by (simp only: of_int_le_iff)
    then have "float64_round x \<le> 2 ^ 53 * 2 powi ?ex"
      unfolding rx by (intro mult_right_mono) auto
    also have "\<dots> = 2 powi (?ex + 53)" by (simp add: power_int_add)
    also have "\<dots> \<le> 2 powi (?ey + 52)"
      using lt by (intro power_int_increasing) auto
    also have "\<dots> = 2 ^ 52 * 2 powi ?ey" by (simp add: power_int_add)
    also have "\<dots> \<le> float64_round y"
    proof -
      have "round_half_even (of_int (2 ^ 52)) \<le> round_half_even (y / 2 powi ?ey)"
        using float64_mantissa_bounds(2)[OF y big] by (intro round_half_even_mono) simp
      then have "2 ^ 52 \<le> round_half_even (y / 2 powi ?ey)"
        by (simp only: round_half_even_of_int)
      then have "(of_int (2 ^ 52) :: rat) \<le> of_int (round_half_even (y / 2 powi ?ey))"
        by (simp only: of_int_le_iff)
      then show ?thesis unfolding ry by (intro mult_right_mono) auto
    qed
    finally show ?thesis .
  qed
qed

lemma float64_round_error:
  assumes "1 \<le> x"
  shows "\<bar>float64_round x - x\<bar> \<le> x / 2 ^ 53"
proof -
  let ?e = "float64_exponent x"
  have x: "0 < x" using assms by simp
  have "ilog2 1 \<le> ilog2 x" using assms by (intro ilog2_mono) auto
  moreover have "ilog2 1 = 0" by (rule ilog2_eqI) auto
  ultimately have e: "?e = ilog2 x - 52" using x by (simp add: float64_exponent_def)
  have p: "(0::rat) < 2 powi ?e" by simp
  have "float64_round x - x = (of_int (round_half_even (x / 2 powi ?e)) - x / 2 powi ?e) * 2 powi ?e"
    using x by (simp add: float64_round_def algebra_simps)
  then have "\<bar>float64_round x - x\<bar>
               = \<bar>of_int (round_half_even (x / 2 powi ?e)) - x / 2 powi ?e\<bar> * 2 powi ?e"
    by (simp add: abs_mult)
  also have "\<dots> \<le> 1 / 2 * 2 powi ?e"
    using round_half_even_bounds[of "x / 2 powi ?e"] by (intro mult_right_mono) auto
  also have "\<dots> = 2 powi ilog2 x / 2 ^ 53"
    by (simp add: e power_int_diff)
  also have "\<dots> \<le> x / 2 ^ 53"
    using ilog2_bounds(1)[OF x] by (simp add: divide_right_mono)
  finally show ?thesis .
qed

lemma float64_round_of_int:
  assumes "0 \<le> n" "n < 2 ^ 53"
  shows "float64_round (of_int n) = of_int n"
proof (cases "n = 0")
  case True then show ?thesis by (simp add: float64_round_def)
next
  case False
  let ?x = "of_int n :: rat"
  let ?e = "float64_exponent ?x"
  have x: "0 < ?x" using assms False by simp
  have x1: "1 \<le> ?x" using assms False by simp
  have "?x < 2 powi 53" using assms(2) by (simp flip: of_int_less_iff)
  then have "(2::rat) powi ilog2 ?x < 2 powi 53"
    using ilog2_bounds(1)[OF x] by linarith
  then have up: "ilog2 ?x < 53"
    by (metis linorder_not_less power_int_increasing one_le_numeral)
  have "ilog2 1 \<le> ilog2 ?x" using x1 by (intro ilog2_mono) auto
  moreover have "ilog2 1 = 0" by (rule ilog2_eqI) auto
  ultimately have e: "?e = ilog2 ?x - 52" "?e \<le> 0"
    using up x by (simp_all add: float64_exponent_def)
  have pw: "(2::rat) powi ?e = 1 / 2 ^ nat (- ?e)"
    using e(2) by (simp add: power_int_def field_simps)
  have "?x / 2 powi ?e = of_int (n * 2 ^ nat (- ?e))"
    by (simp add: pw)
  then have "round_half_even (?x / 2 powi ?e) = n * 2 ^ nat (- ?e)"
    by (simp only: round_half_even_of_int)
  then have "float64_round ?x = of_int (n * 2 ^ nat (- ?e)) * 2 powi ?e"
    using False by (simp add: float64_round_def)
  also have "\<dots> = ?x" by (simp add: pw)
  finally show ?thesis .
qed

subsection \<open>The sampler on the valid domain\<close>

lemma float_of_int_exact:
  "0 \<le> n \<Longrightarrow> n < 2 ^ 53 \<Longrightarrow> float_of_int n = of_int n"
  by (simp add: float_of_int_def float64_round_of_int)

lemma small_int_exact:
  assumes "0 \<le> n" "n \<le> 20000"
  shows "float64_round (of_int n) = of_int n"
  using assms by (intro float64_round_of_int) auto

lemma float64_round_ge_1:
  assumes "1 \<le> x"
  shows "1 \<le> float64_round x"
proof -
  have "float64_round (of_int 1) \<le> float64_round x"
    using assms by (intro float64_round_mono) auto
  then show ?thesis by (simp only: small_int_exact[of 1, simplified] of_int_1)
qed

lemma linspace_int_domain:
  assumes "100 \<le> max_n" "max_n \<le> 20000" "4 \<le> steps" "steps \<le> 30"
  shows "linspace_int 10 max_n steps =
           Inr (map (\<lambda>i. if i = steps - 1 then max_n
                          else \<lfloor>fadd (fmul (of_int i)
                                   (fdiv (of_int (max_n - 10)) (of_int (steps - 1)))) 10\<rfloor>)
                    [0..steps - 1])"
proof -
  let ?step = "fdiv (of_int (max_n - 10)) (of_int (steps - 1))"
  have start_f: "fmul (float_of_int 10) 1 = 10"
    using small_int_exact[of 10] by (simp add: fmul_def float_of_int_def)
  have stop_f: "fmul (float_of_int max_n) 1 = of_int max_n"
    using small_int_exact[of max_n] assms by (simp add: fmul_def float_of_int_def)
  have delta: "fsub (of_int max_n) 10 = of_int (max_n - 10)"
    using small_int_exact[of "max_n - 10"] assms by (simp add: fsub_def)
  have dv: "float_of_int (steps - 1) = of_int (steps - 1)"
    using small_int_exact[of "steps - 1"] assms by (simp add: float_of_int_def)
  have "(1::rat) \<le> of_int (max_n - 10) / of_int (steps - 1)"
  proof -
    have "(of_int (steps - 1) :: rat) \<le> of_int (max_n - 10)"
      using assms by (simp only: of_int_le_iff)
    moreover have "(0::rat) < of_int (steps - 1)" using assms by simp
    ultimately show ?thesis by (simp add: pos_le_divide_eq)
  qed
  then have "1 \<le> ?step" unfolding fdiv_def by (rule float64_round_ge_1)
  then have nz: "?step \<noteq> 0" by simp
  have ys: "map float_of_int [0..steps - 1] = map of_int [0..steps - 1]"
  proof (rule map_cong[OF refl])
    fix i assume "i \<in> set [0..steps - 1]"
    then have "0 \<le> i" "i \<le> 20000" using assms by auto
    then show "float_of_int i = of_int i"
      using small_int_exact[of i] by (simp add: float_of_int_def)
  qed
  have len: "length [0..steps - 1] = nat steps" using assms by simp
  have upd: "(map (\<lambda>v. fadd v 10) (map (\<lambda>v. fmul v ?step) (map of_int [0..steps - 1])))
               [nat (steps - 1) := of_int max_n]
             = map (\<lambda>i. if i = steps - 1 then of_int max_n
                          else fadd (fmul (of_int i) ?step) 10) [0..steps - 1]"
    (is "?l = ?r")
  proof (rule nth_equalityI)
    show "length ?l = length ?r" by simp
  next
    fix k assume "k < length ?l"
    then have k: "k < nat steps" using len by simp
    then have nth: "[0..steps - 1] ! k = int k" by (simp add: nth_upto)
    show "?l ! k = ?r ! k"
    proof (cases "k = nat (steps - 1)")
      case True
      then have "int k = steps - 1" using assms by simp
      then show ?thesis using k len True nth by simp
    next
      case False
      then have "int k \<noteq> steps - 1" using assms by linarith
      then show ?thesis using k len False nth by simp
    qed
  qed
  have c: "(steps < 0) = False" "(0 < steps - 1) = True" "(1 < steps) = True"
    "(?step = 0) = False"
    using assms nz by auto
  have "linspace_int 10 max_n steps = Inr (map floor ?l)"
    unfolding linspace_int_def Let_def start_f stop_f delta dv ys
    by (simp only: c if_True if_False)
  also have "?l = ?r" by (rule upd)
  also have "map floor ?r = map (\<lambda>i. if i = steps - 1 then max_n
                          else \<lfloor>fadd (fmul (of_int i) ?step) 10\<rfloor>) [0..steps - 1]"
    by (simp add: comp_def if_distrib[of floor] cong: if_cong)
  finally show ?thesis .
qed

lemma fadd_fmul_zero: "fadd (fmul (of_int 0) step) 10 = 10"
  using small_int_exact[of 10] by (simp add: fadd_def fmul_def float64_round_def)

lemma fadd_fmul_mono:
  assumes "0 \<le> i" "i \<le> j" "0 \<le> step"
  shows "fadd (fmul (of_int i) step) 10 \<le> fadd (fmul (of_int j) step) 10"
proof -
  have "(of_int i :: rat) * step \<le> of_int j * step"
    using assms by (intro mult_right_mono) auto
  moreover have "0 \<le> (of_int i :: rat) * step" using assms by simp
  ultimately have m: "fmul (of_int i) step \<le> fmul (of_int j) step"
    unfolding fmul_def by (intro float64_round_mono)
  have "0 \<le> fmul (of_int i) step"
    unfolding fmul_def using assms by (intro float64_round_nonneg) simp
  then show ?thesis
    unfolding fadd_def using m by (intro float64_round_mono) auto
qed

text \<open>Numeric facts about one sample inside the valid domain.\<close>

lemma sample_analysis:
  fixes max_n steps i :: int
  assumes dom: "100 \<le> max_n" "max_n \<le> 20000" "4 \<le> steps" "steps \<le> 30"
    and i: "0 \<le> i" "i \<le> steps - 2"
  defines "s \<equiv> (of_int (max_n - 10) :: rat) / of_int (steps - 1)"
  defines "y \<equiv> fadd (fmul (of_int i) (fdiv (of_int (max_n - 10)) (of_int (steps - 1)))) 10"
  shows "y \<le> of_int max_n" and "\<bar>y - (10 + of_int i * s)\<bar> \<le> 1 / 1000"
proof -
  define d :: rat where "d = of_int (steps - 1)"
  define delta :: rat where "delta = of_int (max_n - 10)"
  define step where "step = float64_round s"
  define p where "p = of_int i * step"
  define t where "t = float64_round p"
  define q where "q = t + 10"
  have y: "y = float64_round q"
    by (simp add: y_def q_def t_def p_def step_def s_def fadd_def fmul_def fdiv_def)
  have d: "3 \<le> d" "d \<le> 29" using dom by (simp_all add: d_def)
  have delta: "90 \<le> delta" "delta \<le> 19990" using dom by (simp_all add: delta_def)
  have ds: "d * s = delta" using d by (simp add: s_def d_def delta_def)
  have s1: "1 \<le> s"
  proof -
    have "d \<le> delta" using d delta by linarith
    moreover have "s = delta / d" by (simp only: s_def d_def delta_def)
    ultimately show ?thesis using d by (simp add: pos_le_divide_eq)
  qed
  have err: "\<bar>step - s\<bar> \<le> s / 2 ^ 53"
    unfolding step_def by (rule float64_round_error[OF s1])
  have step1: "1 \<le> step" unfolding step_def by (rule float64_round_ge_1[OF s1])
  have ir: "(0::rat) \<le> of_int i" "(of_int i :: rat) \<le> d - 1"
    using i by (simp_all add: d_def)
  have p0: "0 \<le> p" using ir step1 by (simp add: p_def)
  have "p \<le> (d - 1) * step"
    unfolding p_def using ir step1 by (intro mult_right_mono) auto
  also have "\<dots> \<le> (d - 1) * (s + s / 2 ^ 53)"
  proof (rule mult_left_mono)
    show "step \<le> s + s / 2 ^ 53" using err by linarith
    show "0 \<le> d - 1" using d by linarith
  qed
  also have "\<dots> = d * s - (s - (d - 1) * s / 2 ^ 53)"
    by (simp add: field_simps)
  also have "\<dots> \<le> d * s"
  proof -
    have "(d - 1) * s \<le> 2 ^ 53 * s"
      using d s1 by (intro mult_right_mono) auto
    then have "(d - 1) * s / 2 ^ 53 \<le> s" by (simp add: pos_divide_le_eq mult.commute)
    then show ?thesis by simp
  qed
  finally have p_le: "p \<le> delta" using ds by simp
  have "t \<le> float64_round delta"
    unfolding t_def using p0 p_le by (intro float64_round_mono)
  also have "float64_round delta = delta"
    unfolding delta_def using dom by (intro small_int_exact) auto
  finally have t_le: "t \<le> delta" .
  have t0: "0 \<le> t" unfolding t_def using p0 by (rule float64_round_nonneg)
  have q1: "1 \<le> q" using t0 by (simp add: q_def)
  have q_le: "q \<le> of_int max_n" using t_le by (simp add: q_def delta_def)
  have "y \<le> float64_round (of_int max_n)"
    unfolding y using q1 q_le by (intro float64_round_mono) auto
  also have "\<dots> = of_int max_n" using dom by (intro small_int_exact) auto
  finally show "y \<le> of_int max_n" .
  have e1: "\<bar>y - q\<bar> \<le> 20000 / 2 ^ 53"
  proof -
    have "\<bar>y - q\<bar> \<le> q / 2 ^ 53" unfolding y by (rule float64_round_error[OF q1])
    also have "\<dots> \<le> 20000 / 2 ^ 53"
      using q_le dom by (intro divide_right_mono) auto
    finally show ?thesis .
  qed
  have e2: "\<bar>t - p\<bar> \<le> 19990 / 2 ^ 53"
  proof (cases "i = 0")
    case True
    then show ?thesis by (simp add: t_def p_def float64_round_def)
  next
    case False
    then have "(1::rat) \<le> of_int i" using i by simp
    then have "1 * 1 \<le> of_int i * step" using step1 by (intro mult_mono) auto
    then have p1: "1 \<le> p" by (simp add: p_def)
    have "\<bar>t - p\<bar> \<le> p / 2 ^ 53" unfolding t_def by (rule float64_round_error[OF p1])
    also have "\<dots> \<le> 19990 / 2 ^ 53"
      using p_le delta by (intro divide_right_mono) auto
    finally show ?thesis .
  qed
  have e3: "\<bar>of_int i * (step - s)\<bar> \<le> 19990 / 2 ^ 53"
  proof -
    have "\<bar>of_int i * (step - s)\<bar> = of_int i * \<bar>step - s\<bar>"
      using ir by (simp add: abs_mult)
    also have "\<dots> \<le> d * (s / 2 ^ 53)"
      using ir err d by (intro mult_mono) auto
    also have "\<dots> = delta / 2 ^ 53" using ds by simp
    also have "\<dots> \<le> 19990 / 2 ^ 53"
      using delta by (intro divide_right_mono) auto
    finally show ?thesis .
  qed
  have "y - (10 + of_int i * s) = (y - q) + (t - p) + of_int i * (step - s)"
    by (simp add: q_def p_def algebra_simps)
  then have "\<bar>y - (10 + of_int i * s)\<bar> \<le> \<bar>y - q\<bar> + \<bar>t - p\<bar> + \<bar>of_int i * (step - s)\<bar>"
    by linarith
  also have "\<dots> \<le> 20000 / 2 ^ 53 + 19990 / 2 ^ 53 + 19990 / 2 ^ 53"
    using e1 e2 e3 by linarith
  also have "\<dots> \<le> 1 / 1000" by simp
  finally show "\<bar>y - (10 + of_int i * s)\<bar> \<le> 1 / 1000" .
qed

lemma floor_near_fraction:
  fixes N D :: int and y :: rat
  assumes D: "1 \<le> D" "D \<le> 29" and near: "\<bar>y - of_int N / of_int D\<bar> \<le> 1 / 1000"
  shows "\<lfloor>of_int N / of_int D :: rat\<rfloor> - 1 \<le> \<lfloor>y\<rfloor>"
    and "\<lfloor>y\<rfloor> \<le> \<lfloor>of_int N / of_int D :: rat\<rfloor>"
    and "\<not> D dvd N \<Longrightarrow> \<lfloor>y\<rfloor> = \<lfloor>of_int N / of_int D :: rat\<rfloor>"
proof -
  define F where "F = N div D"
  define r where "r = N mod D"
  have fl: "\<lfloor>of_int N / of_int D :: rat\<rfloor> = F"
    by (simp add: F_def floor_divide_of_int_eq)
  have r: "0 \<le> r" "r \<le> D - 1" using D by (simp_all add: r_def) 
  have N: "N = D * F + r" by (simp add: F_def r_def)
  have dpos: "(0::rat) < of_int D" using D by simp
  have e: "(of_int N :: rat) / of_int D = of_int F + of_int r / of_int D"
    using dpos by (simp add: N field_simps)
  have frac0: "(0::rat) \<le> of_int r / of_int D" using r dpos by simp
  have dinv: "(1::rat) / 29 \<le> 1 / of_int D"
    using D dpos by (simp add: field_simps)
  have frac1: "(of_int r :: rat) / of_int D \<le> 1 - 1 / of_int D"
  proof -
    have "(of_int r :: rat) \<le> of_int D - 1" using r by (simp flip: of_int_diff add: of_int_le_iff[symmetric] del: of_int_diff)
    then have "(of_int r :: rat) / of_int D \<le> (of_int D - 1) / of_int D"
      using dpos by (intro divide_right_mono) auto
    also have "\<dots> = 1 - 1 / of_int D" using dpos by (simp add: field_simps)
    finally show ?thesis .
  qed
  have lo: "of_int F - 1 / 1000 \<le> y" using near e frac0 by linarith
  have hi: "y < of_int F + 1" using near e frac1 dinv by linarith
  have "of_int (F - 1) \<le> y" using lo by simp
  then have a: "F - 1 \<le> \<lfloor>y\<rfloor>" by (simp only: le_floor_iff)
  have "y < of_int (F + 1)" using hi by simp
  then have "\<lfloor>y\<rfloor> < F + 1" by (simp only: floor_less_iff)
  then have b: "\<lfloor>y\<rfloor> \<le> F" by simp
  show "\<lfloor>of_int N / of_int D :: rat\<rfloor> - 1 \<le> \<lfloor>y\<rfloor>" using a fl by simp
  show "\<lfloor>y\<rfloor> \<le> \<lfloor>of_int N / of_int D :: rat\<rfloor>" using b fl by simp
  assume "\<not> D dvd N"
  then have "r \<noteq> 0" by (simp add: r_def dvd_eq_mod_eq_0)
  then have "1 \<le> r" using r by simp
  then have "(1::rat) \<le> of_int r" by simp
  then have "(1::rat) / of_int D \<le> of_int r / of_int D"
    using dpos by (intro divide_right_mono) auto
  then have "of_int F \<le> y" using near e dinv by linarith
  then have "F \<le> \<lfloor>y\<rfloor>" by (simp only: le_floor_iff)
  with b fl show "\<lfloor>y\<rfloor> = \<lfloor>of_int N / of_int D :: rat\<rfloor>" by simp
qed

lemma sample_mono:
  fixes max_n steps :: int
  assumes dom: "100 \<le> max_n" "max_n \<le> 20000" "4 \<le> steps" "steps \<le> 30"
    and ij: "0 \<le> i" "i \<le> j" "j \<le> steps - 1"
  shows "(if i = steps - 1 then max_n
          else \<lfloor>fadd (fmul (of_int i) (fdiv (of_int (max_n - 10)) (of_int (steps - 1)))) 10\<rfloor>)
       \<le> (if j = steps - 1 then max_n
          else \<lfloor>fadd (fmul (of_int j) (fdiv (of_int (max_n - 10)) (of_int (steps - 1)))) 10\<rfloor>)"
proof -
  let ?step = "fdiv (of_int (max_n - 10)) (of_int (steps - 1))"
  have step0: "0 \<le> ?step"
    unfolding fdiv_def using dom by (intro float64_round_nonneg) simp
  show ?thesis
  proof (cases "j = steps - 1")
    case True
    show ?thesis
    proof (cases "i = steps - 1")
      case True
      with \<open>j = steps - 1\<close> show ?thesis by simp
    next
      case False
      then have "i \<le> steps - 2" using ij True by linarith
      from sample_analysis(1)[OF dom ij(1) this]
      have "\<lfloor>fadd (fmul (of_int i) ?step) 10\<rfloor> \<le> \<lfloor>of_int max_n :: rat\<rfloor>"
        by (rule floor_mono)
      then show ?thesis using True False by simp
    qed
  next
    case False
    then have "i \<noteq> steps - 1" using ij by linarith
    moreover have "\<lfloor>fadd (fmul (of_int i) ?step) 10\<rfloor> \<le> \<lfloor>fadd (fmul (of_int j) ?step) 10\<rfloor>"
      using fadd_fmul_mono[OF ij(1,2) step0] by (rule floor_mono)
    ultimately show ?thesis using False by simp
  qed
qed

lemma sampler_properties:
  fixes max_n steps :: int
  assumes dom: "100 \<le> max_n" "max_n \<le> 20000" "4 \<le> steps" "steps \<le> 30"
  shows "\<exists>sizes. linspace_int 10 max_n steps = Inr sizes \<and> length sizes = nat steps
           \<and> sorted sizes \<and> hd sizes = 10 \<and> last sizes = max_n \<and> (\<forall>n \<in> set sizes. 10 \<le> n)"
proof -
  define f where "f = (\<lambda>i. if i = steps - 1 then max_n
      else \<lfloor>fadd (fmul (of_int i) (fdiv (of_int (max_n - 10)) (of_int (steps - 1)))) 10\<rfloor>)"
  have lin: "linspace_int 10 max_n steps = Inr (map f [0..steps - 1])"
    unfolding f_def by (rule linspace_int_domain[OF dom])
  have mono: "f i \<le> f j" if "0 \<le> i" "i \<le> j" "j \<le> steps - 1" for i j
    unfolding f_def using sample_mono[OF dom that] .
  have f0: "f 0 = 10"
    using dom fadd_fmul_zero[of "fdiv (of_int (max_n - 10)) (of_int (steps - 1))"]
    by (simp add: f_def)
  have len: "length (map f [0..steps - 1]) = nat steps" using dom by simp
  have "sorted_wrt (\<lambda>x y. f x \<le> f y) [0..steps - 1]"
  proof (rule sorted_wrt_mono_rel[of _ "(\<le>)"])
    show "sorted_wrt (\<le>) [0..steps - 1]" by (rule sorted_upto)
  next
    fix x y assume "x \<in> set [0..steps - 1]" "y \<in> set [0..steps - 1]" "x \<le> y"
    then show "f x \<le> f y" by (intro mono) auto
  qed
  then have srt: "sorted (map f [0..steps - 1])" by (simp only: sorted_map)
  have ne: "[0..steps - 1] \<noteq> []" using dom by simp
  have "hd [0..steps - 1] = 0" using dom by (simp add: upto.simps)
  then have hd: "hd (map f [0..steps - 1]) = 10" using ne f0 by (simp add: hd_map)
  have "last [0..steps - 1] = steps - 1"
    using dom upto_rec2[of 0 "steps - 1"] by simp
  then have "last (map f [0..steps - 1]) = f (steps - 1)" using ne by (simp add: last_map)
  then have lst: "last (map f [0..steps - 1]) = max_n" by (simp add: f_def)
  have ge: "\<forall>n \<in> set (map f [0..steps - 1]). 10 \<le> n"
  proof
    fix n assume "n \<in> set (map f [0..steps - 1])"
    then obtain i where "0 \<le> i" "i \<le> steps - 1" "n = f i" by auto
    then show "10 \<le> n" using mono[of 0 i] f0 by simp
  qed
  show ?thesis using lin len srt hd lst ge by blast
qed

subsection \<open>Binary search\<close>

lemma getitem_in_range:
  "0 \<le> i \<Longrightarrow> i < int (length xs) \<Longrightarrow> getitem xs i = Inr (xs ! nat i)"
  by (simp add: getitem_def)

lemma bs_step_decreases:
  "bs_step arr target s = Continue s' \<Longrightarrow>
     fst s \<le> snd s \<and> snd s' - fst s' < snd s - fst s"
  by (auto simp: bs_step_def Let_def split: if_splits sum.splits)

lemma bs_mid_bounds:
  fixes left right :: int
  assumes "left \<le> right"
  shows "left \<le> left + (right - left) div 2" and "left + (right - left) div 2 \<le> right"
  using assms by auto

lemma bs_step_invariant:
  assumes "0 \<le> fst s" "snd s < int (length arr)" "bs_step arr target s = Continue s'"
  shows "0 \<le> fst s' \<and> snd s' < int (length arr)"
  using assms
  by (auto simp: bs_step_def Let_def split: if_splits sum.splits)

lemma bs_reachable_invariant:
  "bs_reachable arr target s \<Longrightarrow> 0 \<le> fst s \<and> snd s < int (length arr)"
proof (induction rule: bs_reachable.induct)
  case bs_init
  show ?case by simp
next
  case (bs_next s s')
  then show ?case using bs_step_invariant[of s arr target s'] by simp
qed

lemma bs_step_no_raise:
  assumes "0 \<le> fst s" "snd s < int (length arr)"
  shows "bs_step arr target s \<noteq> Raise e"
proof (cases "fst s \<le> snd s")
  case True
  let ?mid = "fst s + (snd s - fst s) div 2"
  have "0 \<le> ?mid" "?mid < int (length arr)"
    using bs_mid_bounds[OF True] assms by linarith+
  then have "getitem arr ?mid = Inr (arr ! nat ?mid)" by (rule getitem_in_range)
  then show ?thesis using True by (simp add: bs_step_def Let_def)
next
  case False
  then show ?thesis by (simp add: bs_step_def Let_def)
qed

lemma bs_loop_returns:
  "0 \<le> fst s \<Longrightarrow> snd s < int (length arr) \<Longrightarrow> \<exists>i. bs_loop arr target s = Inr i"
proof (induction arr target s rule: bs_loop.induct)
  case (1 arr target s)
  show ?case
  proof (cases "bs_step arr target s")
    case (Continue s')
    from bs_step_invariant[OF "1.prems" Continue]
    have "\<exists>i. bs_loop arr target s' = Inr i"
      using "1.IH"[OF Continue] by simp
    then show ?thesis using Continue by (subst bs_loop.simps) simp
  next
    case (Return i)
    then show ?thesis by (subst bs_loop.simps) simp
  next
    case (Raise e)
    then show ?thesis using bs_step_no_raise[OF "1.prems"] by simp
  qed
qed

lemma bs_run_enough:
  "nat (snd s - fst s + 1) < k \<Longrightarrow> bs_run k arr target s = Some (bs_loop arr target s)"
proof (induction k arbitrary: s)
  case 0
  then show ?case by simp
next
  case (Suc k)
  show ?case
  proof (cases "bs_step arr target s")
    case (Continue s')
    from bs_step_decreases[OF Continue] Suc.prems
    have "nat (snd s' - fst s' + 1) < k" by linarith
    from Suc.IH[OF this] Continue show ?thesis
      by (subst bs_loop.simps) simp
  next
    case (Return i)
    then show ?thesis by (subst bs_loop.simps) simp
  next
    case (Raise e)
    then show ?thesis by (subst bs_loop.simps) simp
  qed
qed

lemma bs_loop_sound:
  "0 \<le> fst s \<Longrightarrow> snd s < int (length arr) \<Longrightarrow> bs_loop arr target s = Inr i \<Longrightarrow>
     i = - 1 \<or> (0 \<le> i \<and> i < int (length arr) \<and> arr ! nat i = target)"
proof (induction arr target s rule: bs_loop.induct)
  case (1 arr target s)
  show ?case
  proof (cases "bs_step arr target s")
    case (Continue s')
    from bs_step_invariant[OF "1.prems"(1,2) Continue] "1.prems"(3) Continue
    show ?thesis
      using "1.IH"[OF Continue] by (subst (asm) bs_loop.simps) simp
  next
    case (Return j)
    then have ij: "i = j" using "1.prems"(3) by (subst (asm) bs_loop.simps) simp
    show ?thesis
    proof (cases "fst s \<le> snd s")
      case True
      let ?mid = "fst s + (snd s - fst s) div 2"
      have m: "0 \<le> ?mid" "?mid < int (length arr)"
        using bs_mid_bounds[OF True] "1.prems" by linarith+
      then have "getitem arr ?mid = Inr (arr ! nat ?mid)" by (rule getitem_in_range)
      with Return True have "j = ?mid \<and> arr ! nat ?mid = target"
        by (auto simp: bs_step_def Let_def split: if_splits)
      with m ij show ?thesis by simp
    next
      case False
      with Return have "j = - 1" by (simp add: bs_step_def Let_def)
      with ij show ?thesis by simp
    qed
  next
    case (Raise e)
    then show ?thesis using bs_step_no_raise[OF "1.prems"(1,2)] by simp
  qed
qed

lemma bs_loop_complete:
  fixes arr :: "'a::linorder list"
  shows "sorted arr \<Longrightarrow> 0 \<le> fst s \<Longrightarrow> snd s < int (length arr) \<Longrightarrow>
     \<forall>j < length arr. arr ! j = target \<longrightarrow> fst s \<le> int j \<and> int j \<le> snd s \<Longrightarrow>
     target \<in> set arr \<Longrightarrow> bs_loop arr target s \<noteq> Inr (- 1)"
proof (induction arr target s rule: bs_loop.induct)
  case (1 arr target s)
  obtain k where k: "k < length arr" "arr ! k = target"
    using "1.prems"(5) by (auto simp: in_set_conv_nth)
  then have kr: "fst s \<le> int k" "int k \<le> snd s" using "1.prems"(4) by auto
  then have le: "fst s \<le> snd s" by linarith
  let ?mid = "fst s + (snd s - fst s) div 2"
  have m: "0 \<le> ?mid" "?mid < int (length arr)"
    using bs_mid_bounds[OF le] "1.prems" by linarith+
  then have g: "getitem arr ?mid = Inr (arr ! nat ?mid)" by (rule getitem_in_range)
  have mlen: "nat ?mid < length arr" using m by linarith
  show ?case
  proof (cases "bs_step arr target s")
    case (Continue s')
    have inv': "0 \<le> fst s' \<and> snd s' < int (length arr)"
      by (rule bs_step_invariant[OF "1.prems"(2,3) Continue])
    have occ: "\<forall>j < length arr. arr ! j = target \<longrightarrow> fst s' \<le> int j \<and> int j \<le> snd s'"
    proof (intro allI impI)
      fix j assume j: "j < length arr" "arr ! j = target"
      then have jr: "fst s \<le> int j" "int j \<le> snd s" using "1.prems"(4) by auto
      show "fst s' \<le> int j \<and> int j \<le> snd s'"
      proof (cases "arr ! nat ?mid < target")
        case True
        then have s': "s' = (?mid + 1, snd s)"
          using Continue le g by (auto simp: bs_step_def Let_def split: if_splits)
        have "\<not> int j \<le> ?mid"
        proof
          assume "int j \<le> ?mid"
          then have "j \<le> nat ?mid" by linarith
          then have "arr ! j \<le> arr ! nat ?mid"
            using "1.prems"(1) mlen by (simp add: sorted_iff_nth_mono)
          with True j show False by simp
        qed
        with s' jr show ?thesis by simp
      next
        case False
        then have s': "s' = (fst s, ?mid - 1)" and ne: "arr ! nat ?mid \<noteq> target"
          using Continue le g by (auto simp: bs_step_def Let_def split: if_splits)
        have "\<not> ?mid \<le> int j"
        proof
          assume "?mid \<le> int j"
          then have "nat ?mid \<le> j" by linarith
          then have "arr ! nat ?mid \<le> arr ! j"
            using "1.prems"(1) j(1) by (simp add: sorted_iff_nth_mono)
          with False ne j show False by simp
        qed
        with s' jr show ?thesis by simp
      qed
    qed
    from "1.IH"[OF Continue "1.prems"(1) _ _ occ "1.prems"(5)] inv'
    show ?thesis using Continue by (subst bs_loop.simps) simp
  next
    case (Return j)
    then have "j = ?mid" using le g by (auto simp: bs_step_def Let_def split: if_splits)
    with m Return show ?thesis by (subst bs_loop.simps) simp
  next
    case (Raise e)
    then show ?thesis using bs_step_no_raise[OF "1.prems"(2,3)] by simp
  qed
qed

lemma binary_search_work_present:
  fixes arr :: "'a::linorder list"
  assumes "sorted arr" "target \<in> set arr"
  shows "\<exists>i. binary_search_work arr target = Inr i \<and> 0 \<le> i \<and> i < int (length arr)
              \<and> arr ! nat i = target"
proof -
  let ?s = "(0 :: int, int (length arr) - 1)"
  obtain i where i: "bs_loop arr target ?s = Inr i"
    using bs_loop_returns[of ?s arr target] by auto
  have "i \<noteq> - 1"
    using bs_loop_complete[of arr ?s target] assms i by auto
  with bs_loop_sound[of ?s arr target i] i
  show ?thesis by (auto simp: binary_search_work_def)
qed

lemma binary_search_work_absent:
  assumes "target \<notin> set arr"
  shows "binary_search_work arr target = Inr (- 1)"
proof -
  let ?s = "(0 :: int, int (length arr) - 1)"
  obtain i where i: "bs_loop arr target ?s = Inr i"
    using bs_loop_returns[of ?s arr target] by auto
  from bs_loop_sound[of ?s arr target i] i assms
  have "i = - 1" by (auto simp: in_set_conv_nth) (metis nat_less_iff nth_mem)
  with i show ?thesis by (simp add: binary_search_work_def)
qed

lemma getitem_last:
  assumes "ys \<noteq> []"
  shows "getitem ys (- 1) = Inr (last ys)"
proof (cases ys)
  case Nil
  with assms show ?thesis by simp
next
  case (Cons z zs)
  have "last ys = ys ! length zs" using Cons by (simp add: last_conv_nth)
  then show ?thesis using Cons by (simp add: getitem_def)
qed

lemma sort_nonempty_last:
  fixes xs :: "int list"
  assumes "xs \<noteq> []"
  shows "getitem (sort xs) (- 1) = Inr (last (sort xs))"
proof (rule getitem_last)
  have "length (sort xs) = length xs" by simp
  with assms show "sort xs \<noteq> []" by (metis length_0_conv)
qed

lemma prepare_binary_search:
  assumes "0 < n"
  shows "prepare env binary_search n w =
           Inr (Call_binary_search_work
                  (sort (map (\<lambda>j. 0 + int (rng env (draws w) j) mod (100000 - 0)) [0..<nat n]))
                  (last (sort (map (\<lambda>j. 0 + int (rng env (draws w) j) mod (100000 - 0)) [0..<nat n]))),
                w\<lparr>draws := Suc (draws w)\<rparr>)"
proof -
  let ?xs = "map (\<lambda>j. 0 + int (rng env (draws w) j) mod (100000 - 0)) [0..<nat n]"
  have "?xs \<noteq> []" using assms by simp
  from sort_nonempty_last[OF this] assms show ?thesis
    by (simp add: prepare_def random_randint_def Let_def)
qed

lemma prepare_binary_search_cases:
  assumes "prepare env binary_search n w = Inr (Call_binary_search_work arr target, w')"
  shows "0 < n \<and> sorted arr \<and> length arr = nat n \<and> arr \<noteq> [] \<and> target = last arr"
proof -
  have n: "0 < n"
  proof (rule ccontr)
    assume "\<not> 0 < n"
    then have "n < 0 \<or> n = 0" by linarith
    then show False using assms
      by (auto simp: prepare_def random_randint_def Let_def getitem_def)
  qed
  from prepare_binary_search[OF n, of env w] assms
  show ?thesis using n by (auto simp: length_0_conv[symmetric] simp del: length_0_conv)
qed

text \<open>
  Claim C5. On a sorted array \<open>binary_search_work\<close> returns an index that holds the
  target when the target is present, and \<open>-1\<close> when it is absent. On
  \<open>[1, 3, 5, 7, 9]\<close> it returns 4 for the target 9 and \<open>-1\<close> for the target 4. The
  array that the harness prepares for the binary-search variant is sorted, its target is
  its last element, and the search returns a valid index holding that target; the
  preparation succeeds for every positive size.
\<close>

theorem binary_search_work_correct:
  fixes arr :: "'a::linorder list"
  shows "(sorted arr \<longrightarrow>
            (target \<in> set arr \<longrightarrow>
               (\<exists>i. binary_search_work arr target = Inr i \<and> 0 \<le> i \<and> i < int (length arr)
                     \<and> arr ! nat i = target))
          \<and> (target \<notin> set arr \<longrightarrow> binary_search_work arr target = Inr (- 1)))
       \<and> binary_search_work [1, 3, 5, 7, 9 :: int] 9 = Inr 4
       \<and> binary_search_work [1, 3, 5, 7, 9 :: int] 4 = Inr (- 1)
       \<and> (prepare env binary_search n w = Inr (Call_binary_search_work xs t, w') \<longrightarrow>
            sorted xs \<and> t = last xs
          \<and> (\<exists>i. binary_search_work xs t = Inr i \<and> 0 \<le> i \<and> i < int (length xs)
                  \<and> xs ! nat i = t))
       \<and> (0 < n \<longrightarrow> (\<exists>xs t w'. prepare env binary_search n w
                                  = Inr (Call_binary_search_work xs t, w')))"
proof (intro conjI impI)
  assume "sorted arr" "target \<in> set arr"
  then show "\<exists>i. binary_search_work arr target = Inr i \<and> 0 \<le> i \<and> i < int (length arr)
                  \<and> arr ! nat i = target"
    by (rule binary_search_work_present)
next
  assume "target \<notin> set arr"
  then show "binary_search_work arr target = Inr (- 1)"
    by (rule binary_search_work_absent)
next
  show "binary_search_work [1, 3, 5, 7, 9 :: int] 9 = Inr 4"
    by (simp add: binary_search_work_def bs_step_def getitem_def Let_def)
next
  show "binary_search_work [1, 3, 5, 7, 9 :: int] 4 = Inr (- 1)"
    by (simp add: binary_search_work_def bs_step_def getitem_def Let_def)
next
  assume p: "prepare env binary_search n w = Inr (Call_binary_search_work xs t, w')"
  from prepare_binary_search_cases[OF p] show "sorted xs" by simp
  from prepare_binary_search_cases[OF p] show "t = last xs" by simp
  from prepare_binary_search_cases[OF p] have "sorted xs" "t \<in> set xs" by auto
  then show "\<exists>i. binary_search_work xs t = Inr i \<and> 0 \<le> i \<and> i < int (length xs) \<and> xs ! nat i = t"
    by (rule binary_search_work_present)
next
  assume "0 < n"
  from prepare_binary_search[OF this, of env w]
  show "\<exists>xs t w'. prepare env binary_search n w = Inr (Call_binary_search_work xs t, w')"
    by blast
qed

theorem binary_search_work_correct_witness:
  "sorted [1, 3, 5, 7, 9 :: int] \<and> (9 :: int) \<in> set [1, 3, 5, 7, 9]
   \<and> (\<exists>i. binary_search_work [1, 3, 5, 7, 9 :: int] 9 = Inr i \<and> 0 \<le> i
           \<and> i < int (length [1, 3, 5, 7, 9 :: int]) \<and> [1, 3, 5, 7, 9 :: int] ! nat i = 9)
   \<and> (0 :: int) < 3
   \<and> (\<exists>xs t w'. prepare \<lparr>perf_counter = (\<lambda>k. 0), rng = (\<lambda>k j. j), savefig = (\<lambda>a s t. [])\<rparr>
                     binary_search 3 \<lparr>reads = 0, draws = 0, trace = []\<rparr>
                   = Inr (Call_binary_search_work xs t, w'))"
  using binary_search_work_correct
          [where arr = "[1, 3, 5, 7, 9 :: int]" and target = 9 and n = 3
             and env = "\<lparr>perf_counter = (\<lambda>k. 0), rng = (\<lambda>k j. j), savefig = (\<lambda>a s t. [])\<rparr>"
             and w = "\<lparr>reads = 0, draws = 0, trace = []\<rparr>"]
  by simp

text \<open>
  Claim C9. For every list and every target, whenever the body of the loop of
  \<open>binary_search_work\<close> runs (a state of the run with \<open>left \<le> right\<close>), the index
  \<open>mid\<close> satisfies \<open>0 \<le> mid < len(arr)\<close> and the read \<open>arr[mid]\<close> succeeds; the
  function returns a value on every input and never raises.
\<close>

theorem binary_search_work_in_bounds:
  "(bs_reachable arr target (left, right) \<longrightarrow> left \<le> right \<longrightarrow>
      0 \<le> left + (right - left) div 2
    \<and> left + (right - left) div 2 < int (length arr)
    \<and> getitem arr (left + (right - left) div 2) = Inr (arr ! nat (left + (right - left) div 2)))
   \<and> (\<exists>i. binary_search_work arr target = Inr i)"
proof (intro conjI impI)
  assume r: "bs_reachable arr target (left, right)" and le: "left \<le> right"
  from bs_reachable_invariant[OF r] have inv: "0 \<le> left" "right < int (length arr)" by simp_all
  show m0: "0 \<le> left + (right - left) div 2"
    using bs_mid_bounds[OF le] inv by linarith
  show m1: "left + (right - left) div 2 < int (length arr)"
    using bs_mid_bounds[OF le] inv by linarith
  show "getitem arr (left + (right - left) div 2) = Inr (arr ! nat (left + (right - left) div 2))"
    using m0 m1 by (rule getitem_in_range)
next
  show "\<exists>i. binary_search_work arr target = Inr i"
    unfolding binary_search_work_def by (rule bs_loop_returns) simp_all
qed

theorem binary_search_work_in_bounds_witness:
  "bs_reachable [1, 3, 5, 7, 9 :: int] 9 (3, 4) \<and> (3 :: int) \<le> 4
   \<and> (0 :: int) \<le> 3 + (4 - 3) div 2
   \<and> (3 :: int) + (4 - 3) div 2 < int (length [1, 3, 5, 7, 9 :: int])
   \<and> getitem [1, 3, 5, 7, 9 :: int] (3 + (4 - 3) div 2) = Inr 7
   \<and> (\<exists>i. binary_search_work [1, 3, 5, 7, 9 :: int] 9 = Inr i)"
proof -
  have r0: "bs_reachable [1, 3, 5, 7, 9 :: int] 9 (0, 4)"
    using bs_init[of "[1, 3, 5, 7, 9 :: int]" 9] by simp
  have "bs_step [1, 3, 5, 7, 9 :: int] 9 (0, 4) = Continue (3, 4)"
    by (simp add: bs_step_def getitem_def Let_def)
  from bs_next[OF r0 this] have r1: "bs_reachable [1, 3, 5, 7, 9 :: int] 9 (3, 4)" .
  from r1 binary_search_work_in_bounds[of "[1, 3, 5, 7, 9 :: int]" 9 3 4]
  show ?thesis by simp
qed

text \<open>
  Claim C10. For every list and every target the loop of \<open>binary_search_work\<close>
  terminates: an iteration that does not return runs with \<open>left \<le> right\<close> and strictly
  decreases \<open>right - left\<close>, and \<open>len(arr) + 1\<close> iterations are enough for the loop to
  finish with the result of the function.
\<close>

theorem binary_search_work_terminates:
  "(bs_step arr target (left, right) = Continue (left', right') \<longrightarrow>
      left \<le> right \<and> right' - left' < right - left)
   \<and> bs_run (length arr + 1) arr target (0, int (length arr) - 1)
       = Some (binary_search_work arr target)"
proof (intro conjI impI)
  assume c: "bs_step arr target (left, right) = Continue (left', right')"
  from bs_step_decreases[OF c] show "left \<le> right" by simp
  from bs_step_decreases[OF c] show "right' - left' < right - left" by simp
next
  show "bs_run (length arr + 1) arr target (0, int (length arr) - 1)
          = Some (binary_search_work arr target)"
    unfolding binary_search_work_def by (rule bs_run_enough) simp
qed

theorem binary_search_work_terminates_witness:
  "bs_step [1, 3, 5, 7, 9 :: int] 9 (0, 4) = Continue (3, 4)
   \<and> (0 :: int) \<le> 4 \<and> (4 :: int) - 3 < 4 - 0
   \<and> bs_run (length [1, 3, 5, 7, 9 :: int] + 1) [1, 3, 5, 7, 9 :: int] 9
         (0, int (length [1, 3, 5, 7, 9 :: int]) - 1)
       = Some (binary_search_work [1, 3, 5, 7, 9 :: int] 9)"
proof -
  have "bs_step [1, 3, 5, 7, 9 :: int] 9 (0, 4) = Continue (3, 4)"
    by (simp add: bs_step_def getitem_def Let_def)
  with binary_search_work_terminates[of "[1, 3, 5, 7, 9 :: int]" 9 0 4 3 4]
  show ?thesis by (simp del: bs_run.simps)
qed

subsection \<open>The measuring loop\<close>

lemma run_timed_returns:
  "run_timed tf w = Inr (w\<lparr>trace := trace w @ [Invoke tf]\<rparr>)"
proof (cases tf)
  case (Call_binary_search_work arr target)
  obtain i where "binary_search_work arr target = Inr i"
    unfolding binary_search_work_def using bs_loop_returns[of "(0, int (length arr) - 1)" arr target]
    by auto
  then show ?thesis using Call_binary_search_work by (simp add: run_timed_def)
next
  case (Call_algorithm f n)
  then show ?thesis by (simp add: run_timed_def)
qed

lemma prepare_returns:
  assumes "0 < n"
  shows "prepare env algorithm_func n w
           = Inr (timed_func env algorithm_func n (draws w),
                  w\<lparr>draws := draws w + (if algorithm_func = binary_search then 1 else 0)\<rparr>)"
proof (cases "algorithm_func = binary_search")
  case True
  show ?thesis
    unfolding True prepare_binary_search[OF assms] by simp
next
  case False
  then show ?thesis by (cases algorithm_func) (simp_all add: prepare_def)
qed

lemma timed_func_size:
  assumes "0 < n"
  shows "timed_size (timed_func env algorithm_func n d) = n"
  using assms by simp

lemma measure_loop_step:
  assumes "0 < n"
  shows "measure_loop env algorithm_func (n # ns) ts w
           = measure_loop env algorithm_func ns
               (ts @ [fsub (perf_counter env (Suc (reads w))) (perf_counter env (reads w))])
               (w\<lparr>draws := draws w + (if algorithm_func = binary_search then 1 else 0),
                  reads := Suc (Suc (reads w)),
                  trace := trace w @ [Clock_read (reads w),
                                      Invoke (timed_func env algorithm_func n (draws w)),
                                      Clock_read (Suc (reads w))]\<rparr>)"
  by (simp add: prepare_returns[OF assms] time_perf_counter_def run_timed_returns
           del: measure_loop.simps(2) add: measure_loop.simps(2)[of env algorithm_func n ns ts w])

lemma measure_loop_spec:
  assumes "\<forall>n \<in> set ns. 0 < n"
  shows "\<exists>ds w'. measure_loop env algorithm_func ns ts w = Inr (ts @ ds, w')
           \<and> length ds = length ns
           \<and> reads w' = reads w + 2 * length ns
           \<and> (\<forall>k < length ns. ds ! k = fsub (perf_counter env (reads w + 2 * k + 1))
                                              (perf_counter env (reads w + 2 * k)))
           \<and> trace w' = trace w @ concat (map (\<lambda>k. [Clock_read (reads w + 2 * k),
                                                      Invoke (timed_func env algorithm_func
                                                                (ns ! k) (draws w + k)),
                                                      Clock_read (reads w + 2 * k + 1)])
                                             [0..<length ns])"
  using assms
proof (induction ns arbitrary: ts w)
  case Nil
  have "measure_loop env algorithm_func [] ts w = Inr (ts @ [], w)" by simp
  then show ?case by (intro exI[of _ "[]"] exI[of _ w]) simp
next
  case (Cons n ns)
  then have n: "0 < n" and rest: "\<forall>m \<in> set ns. 0 < m" by simp_all
  let ?d = "fsub (perf_counter env (Suc (reads w))) (perf_counter env (reads w))"
  let ?w4 = "w\<lparr>draws := draws w + (if algorithm_func = binary_search then 1 else 0),
                reads := Suc (Suc (reads w)),
                trace := trace w @ [Clock_read (reads w),
                                    Invoke (timed_func env algorithm_func n (draws w)),
                                    Clock_read (Suc (reads w))]\<rparr>"
  have step: "measure_loop env algorithm_func (n # ns) ts w
                = measure_loop env algorithm_func ns (ts @ [?d]) ?w4"
    by (rule measure_loop_step[OF n])
  obtain ds w' where
    res: "measure_loop env algorithm_func ns (ts @ [?d]) ?w4 = Inr ((ts @ [?d]) @ ds, w')"
    and len: "length ds = length ns"
    and rd: "reads w' = reads ?w4 + 2 * length ns"
    and nth: "\<forall>k < length ns. ds ! k = fsub (perf_counter env (reads ?w4 + 2 * k + 1))
                                           (perf_counter env (reads ?w4 + 2 * k))"
    and tr: "trace w' = trace ?w4 @ concat (map (\<lambda>k. [Clock_read (reads ?w4 + 2 * k),
                                                      Invoke (timed_func env algorithm_func
                                                                (ns ! k) (draws ?w4 + k)),
                                                      Clock_read (reads ?w4 + 2 * k + 1)])
                                             [0..<length ns])"
    using Cons.IH[OF rest, where ts = "ts @ [?d]" and w = ?w4] by blast
  let ?g = "\<lambda>k. [Clock_read (reads w + 2 * k),
                  Invoke (timed_func env algorithm_func ((n # ns) ! k) (draws w + k)),
                  Clock_read (reads w + 2 * k + 1)]"
  have a: "measure_loop env algorithm_func (n # ns) ts w = Inr (ts @ (?d # ds), w')"
    using step res by simp
  have b: "length (?d # ds) = length (n # ns)" using len by simp
  have d: "reads w' = reads w + 2 * length (n # ns)" using rd by simp
  have e: "\<forall>k < length (n # ns). (?d # ds) ! k
             = fsub (perf_counter env (reads w + 2 * k + 1)) (perf_counter env (reads w + 2 * k))"
  proof (intro allI impI)
    fix k assume k: "k < length (n # ns)"
    show "(?d # ds) ! k
            = fsub (perf_counter env (reads w + 2 * k + 1)) (perf_counter env (reads w + 2 * k))"
    proof (cases k)
      case 0 then show ?thesis by simp
    next
      case (Suc j)
      then have "j < length ns" using k by simp
      with nth Suc show ?thesis by simp
    qed
  qed
  have "[0..<length (n # ns)] = 0 # map Suc [0..<length ns]"
    by (simp add: upt_conv_Cons map_Suc_upt del: upt_Suc)
  then have "concat (map ?g [0..<length (n # ns)])
               = ?g 0 @ concat (map (\<lambda>k. ?g (Suc k)) [0..<length ns])"
    by (simp add: comp_def del: upt_Suc)
  also have "?g 0 = [Clock_read (reads w),
                     Invoke (timed_func env algorithm_func n (draws w)),
                     Clock_read (Suc (reads w))]" by simp
  also have "map (\<lambda>k. ?g (Suc k)) [0..<length ns]
               = map (\<lambda>k. [Clock_read (reads ?w4 + 2 * k),
                            Invoke (timed_func env algorithm_func (ns ! k) (draws ?w4 + k)),
                            Clock_read (reads ?w4 + 2 * k + 1)]) [0..<length ns]"
    by (cases "algorithm_func = binary_search") simp_all
  finally have f: "trace w' = trace w @ concat (map ?g [0..<length (n # ns)])"
    using tr by simp
  show ?case
    by (rule exI[of _ "?d # ds"], rule exI[of _ w'])
       (intro conjI a b d e f)
qed

lemma invocations_append: "invocations (es @ fs) = invocations es @ invocations fs"
  by (induction es rule: invocations.induct) simp_all

lemma invocations_brackets:
  "invocations (concat (map (\<lambda>k. [Clock_read (a k), Invoke (c k), Clock_read (b k)]) [0..<m]))
     = map c [0..<m]"
  by (induction m) (simp_all add: invocations_append)

lemma measure_times_domain:
  fixes max_n steps :: int
  assumes dom: "100 \<le> max_n" "max_n \<le> 20000" "4 \<le> steps" "steps \<le> 30"
  shows "\<exists>sizes ds w'.
           linspace_int 10 max_n steps = Inr sizes
         \<and> measure_times env algorithm_func max_n steps w = Inr ((sizes, ds), w')
         \<and> length sizes = nat steps \<and> sorted sizes \<and> hd sizes = 10 \<and> last sizes = max_n
         \<and> (\<forall>n \<in> set sizes. 0 < n)
         \<and> length ds = length sizes
         \<and> reads w' = reads w + 2 * length sizes
         \<and> (\<forall>k < length sizes. ds ! k = fsub (perf_counter env (reads w + 2 * k + 1))
                                                (perf_counter env (reads w + 2 * k)))
         \<and> trace w' = trace w @ concat (map (\<lambda>k. [Clock_read (reads w + 2 * k),
                                                    Invoke (timed_func env algorithm_func
                                                              (sizes ! k) (draws w + k)),
                                                    Clock_read (reads w + 2 * k + 1)])
                                           [0..<length sizes])"
proof -
  obtain sizes where lin: "linspace_int 10 max_n steps = Inr sizes"
    and props: "length sizes = nat steps" "sorted sizes" "hd sizes = 10" "last sizes = max_n"
    and ge: "\<forall>n \<in> set sizes. 10 \<le> n"
    using sampler_properties[OF dom] by blast
  from ge have pos: "\<forall>n \<in> set sizes. 0 < n" by auto
  obtain ds w' where
    loop: "measure_loop env algorithm_func sizes [] w = Inr ([] @ ds, w')"
    and rest: "length ds = length sizes"
      "reads w' = reads w + 2 * length sizes"
      "\<forall>k < length sizes. ds ! k = fsub (perf_counter env (reads w + 2 * k + 1))
                                           (perf_counter env (reads w + 2 * k))"
      "trace w' = trace w @ concat (map (\<lambda>k. [Clock_read (reads w + 2 * k),
                                              Invoke (timed_func env algorithm_func
                                                        (sizes ! k) (draws w + k)),
                                              Clock_read (reads w + 2 * k + 1)])
                                     [0..<length sizes])"
    using measure_loop_spec[OF pos, where env = env and algorithm_func = algorithm_func
                              and ts = "[]" and w = w] by blast
  have mt: "measure_times env algorithm_func max_n steps w = Inr ((sizes, ds), w')"
    using lin loop by (simp add: measure_times_def)
  show ?thesis
    by (rule exI[of _ sizes], rule exI[of _ ds], rule exI[of _ w'])
       (intro conjI lin mt props pos rest)
qed

text \<open>
  Claim C1. For every \<open>max_n\<close> in \<open>[100, 20000]\<close> and \<open>steps\<close> in \<open>[4, 30]\<close>,
  \<open>measure_times\<close> returns, and the sequence of sizes that it samples
  (\<open>np.linspace(10, max_n, steps, dtype=int)\<close>) has exactly \<open>steps\<close> elements, is
  non-decreasing, starts with 10 and ends with \<open>max_n\<close>.
\<close>

theorem sampler_sizes:
  fixes max_n steps :: int
  assumes "100 \<le> max_n" "max_n \<le> 20000" "4 \<le> steps" "steps \<le> 30"
  shows "\<exists>sizes times_list w'.
           measure_times env algorithm_func max_n steps w = Inr ((sizes, times_list), w')
         \<and> linspace_int 10 max_n steps = Inr sizes
         \<and> length sizes = nat steps \<and> sorted sizes \<and> hd sizes = 10 \<and> last sizes = max_n"
  using measure_times_domain[OF assms, of env algorithm_func w] by blast

theorem sampler_sizes_witness:
  "(100 :: int) \<le> 1000 \<and> (1000 :: int) \<le> 20000 \<and> (4 :: int) \<le> 5 \<and> (5 :: int) \<le> 30
   \<and> (\<exists>sizes times_list w'.
          measure_times \<lparr>perf_counter = (\<lambda>k. of_nat k), rng = (\<lambda>k j. j), savefig = (\<lambda>a s t. [])\<rparr>
            binary_search 1000 5 \<lparr>reads = 0, draws = 0, trace = []\<rparr>
            = Inr ((sizes, times_list), w')
        \<and> linspace_int 10 1000 5 = Inr sizes
        \<and> length sizes = nat 5 \<and> sorted sizes \<and> hd sizes = 10 \<and> last sizes = 1000)"
  using sampler_sizes[of 1000 5
          "\<lparr>perf_counter = (\<lambda>k. of_nat k), rng = (\<lambda>k j. j), savefig = (\<lambda>a s t. [])\<rparr>"
          binary_search "\<lparr>reads = 0, draws = 0, trace = []\<rparr>"]
  by simp

text \<open>
  Claim C3. For every valid input \<open>(algorithm, max_n, steps)\<close>, \<open>measure_times\<close> returns
  two sequences of the same length, with exactly one duration per sampled size and in the
  order of the sizes: the run consists, for \<open>k = 0, 1, \<dots>\<close> in this order, of a read of
  the clock, one invocation of the closure built for the \<open>k\<close>-th size, and a second read
  of the clock, and the \<open>k\<close>-th duration is the difference of these two reads.
\<close>

theorem measure_times_lengths:
  fixes max_n steps :: int
  assumes "100 \<le> max_n" "max_n \<le> 20000" "4 \<le> steps" "steps \<le> 30"
  shows "\<exists>sizes times_list w'.
           measure_times env algorithm_func max_n steps w = Inr ((sizes, times_list), w')
         \<and> length times_list = length sizes \<and> length sizes = nat steps
         \<and> map timed_size (invocations (drop (length (trace w)) (trace w'))) = sizes
         \<and> trace w' = trace w @ concat (map (\<lambda>k. [Clock_read (reads w + 2 * k),
                                                    Invoke (timed_func env algorithm_func
                                                              (sizes ! k) (draws w + k)),
                                                    Clock_read (reads w + 2 * k + 1)])
                                           [0..<length sizes])
         \<and> times_list = map (\<lambda>k. fsub (perf_counter env (reads w + 2 * k + 1))
                                       (perf_counter env (reads w + 2 * k)))
                              [0..<length sizes]"
proof -
  obtain sizes ds w' where
    mt: "measure_times env algorithm_func max_n steps w = Inr ((sizes, ds), w')"
    and len: "length sizes = nat steps" "length ds = length sizes"
    and pos: "\<forall>n \<in> set sizes. 0 < n"
    and nth: "\<forall>k < length sizes. ds ! k = fsub (perf_counter env (reads w + 2 * k + 1))
                                                (perf_counter env (reads w + 2 * k))"
    and tr: "trace w' = trace w @ concat (map (\<lambda>k. [Clock_read (reads w + 2 * k),
                                                    Invoke (timed_func env algorithm_func
                                                              (sizes ! k) (draws w + k)),
                                                    Clock_read (reads w + 2 * k + 1)])
                                           [0..<length sizes])"
    using measure_times_domain[OF assms, of env algorithm_func w] by blast
  have "invocations (drop (length (trace w)) (trace w'))
          = map (\<lambda>k. timed_func env algorithm_func (sizes ! k) (draws w + k)) [0..<length sizes]"
    unfolding tr by (simp only: append_eq_conv_conj drop_append length_drop drop_all
                          diff_self_eq_0 drop_0 append_Nil order_refl invocations_brackets)
  then have "map timed_size (invocations (drop (length (trace w)) (trace w')))
               = map (\<lambda>k. timed_size (timed_func env algorithm_func (sizes ! k) (draws w + k)))
                     [0..<length sizes]"
    by (simp only: map_map comp_def)
  also have "\<dots> = map (\<lambda>k. sizes ! k) [0..<length sizes]"
  proof (rule map_cong[OF refl])
    fix k assume "k \<in> set [0..<length sizes]"
    then have "0 < sizes ! k" using pos by simp
    then show "timed_size (timed_func env algorithm_func (sizes ! k) (draws w + k)) = sizes ! k"
      by (rule timed_func_size)
  qed
  also have "\<dots> = sizes" by (rule map_nth)
  finally have inv: "map timed_size (invocations (drop (length (trace w)) (trace w'))) = sizes" .
  have ds: "ds = map (\<lambda>k. fsub (perf_counter env (reads w + 2 * k + 1))
                               (perf_counter env (reads w + 2 * k))) [0..<length sizes]"
    by (rule nth_equalityI) (use len nth in simp_all)
  show ?thesis
    by (rule exI[of _ sizes], rule exI[of _ ds], rule exI[of _ w'])
       (intro conjI mt len inv tr ds)
qed

theorem measure_times_lengths_witness:
  "(100 :: int) \<le> 1000 \<and> (1000 :: int) \<le> 20000 \<and> (4 :: int) \<le> 5 \<and> (5 :: int) \<le> 30
   \<and> (\<exists>sizes times_list w'.
          measure_times \<lparr>perf_counter = (\<lambda>k. of_nat k), rng = (\<lambda>k j. j), savefig = (\<lambda>a s t. [])\<rparr>
            linear_search 1000 5 \<lparr>reads = 0, draws = 0, trace = []\<rparr>
            = Inr ((sizes, times_list), w')
        \<and> length times_list = length sizes \<and> length sizes = 5
        \<and> map timed_size (invocations (trace w')) = sizes
        \<and> trace w' = concat (map (\<lambda>k. [Clock_read (2 * k),
                                         Invoke (Call_algorithm linear_search (sizes ! k)),
                                         Clock_read (2 * k + 1)])
                                [0..<length sizes])
        \<and> times_list = map (\<lambda>k. fsub (of_nat (2 * k + 1)) (of_nat (2 * k))) [0..<length sizes])"
  using measure_times_lengths[of 1000 5
          "\<lparr>perf_counter = (\<lambda>k. of_nat k), rng = (\<lambda>k j. j), savefig = (\<lambda>a s t. [])\<rparr>"
          linear_search "\<lparr>reads = 0, draws = 0, trace = []\<rparr>"]
  by simp

text \<open>
  Claim C4. For every sampled size, the recorded duration is \<open>end - start\<close> (a
  double-precision subtraction) of two consecutive reads of the clock, and between these
  two reads the run holds exactly one invocation, that of the closure built for the
  requested algorithm and that size (for \<open>binary_search\<close> the search
  \<open>binary_search_work\<close> on the prepared array and target); when the second read is not
  below the first, the duration is not negative.
\<close>

theorem measure_times_durations:
  fixes max_n steps :: int
  assumes "100 \<le> max_n" "max_n \<le> 20000" "4 \<le> steps" "steps \<le> 30"
  shows "\<exists>sizes times_list w'.
           measure_times env algorithm_func max_n steps w = Inr ((sizes, times_list), w')
         \<and> length times_list = length sizes
         \<and> (\<forall>k < length sizes.
               times_list ! k = fsub (perf_counter env (reads w + 2 * k + 1))
                                     (perf_counter env (reads w + 2 * k))
             \<and> (perf_counter env (reads w + 2 * k) \<le> perf_counter env (reads w + 2 * k + 1)
                  \<longrightarrow> 0 \<le> times_list ! k))
         \<and> trace w' = trace w @ concat (map (\<lambda>k. [Clock_read (reads w + 2 * k),
                                                    Invoke (timed_func env algorithm_func
                                                              (sizes ! k) (draws w + k)),
                                                    Clock_read (reads w + 2 * k + 1)])
                                           [0..<length sizes])"
proof -
  obtain sizes ds w' where
    mt: "measure_times env algorithm_func max_n steps w = Inr ((sizes, ds), w')"
    and len: "length ds = length sizes"
    and nth: "\<forall>k < length sizes. ds ! k = fsub (perf_counter env (reads w + 2 * k + 1))
                                                (perf_counter env (reads w + 2 * k))"
    and tr: "trace w' = trace w @ concat (map (\<lambda>k. [Clock_read (reads w + 2 * k),
                                                    Invoke (timed_func env algorithm_func
                                                              (sizes ! k) (draws w + k)),
                                                    Clock_read (reads w + 2 * k + 1)])
                                           [0..<length sizes])"
    using measure_times_domain[OF assms, of env algorithm_func w] by blast
  have dur: "\<forall>k < length sizes.
               ds ! k = fsub (perf_counter env (reads w + 2 * k + 1))
                             (perf_counter env (reads w + 2 * k))
             \<and> (perf_counter env (reads w + 2 * k) \<le> perf_counter env (reads w + 2 * k + 1)
                  \<longrightarrow> 0 \<le> ds ! k)"
  proof (intro allI impI conjI)
    fix k assume k: "k < length sizes"
    show "ds ! k = fsub (perf_counter env (reads w + 2 * k + 1))
                        (perf_counter env (reads w + 2 * k))"
      using nth k by simp
    assume "perf_counter env (reads w + 2 * k) \<le> perf_counter env (reads w + 2 * k + 1)"
    then have "0 \<le> fsub (perf_counter env (reads w + 2 * k + 1))
                         (perf_counter env (reads w + 2 * k))"
      unfolding fsub_def by (intro float64_round_nonneg) simp
    then show "0 \<le> ds ! k" using nth k by simp
  qed
  show ?thesis
    by (rule exI[of _ sizes], rule exI[of _ ds], rule exI[of _ w'])
       (intro conjI mt len dur tr)
qed

theorem measure_times_durations_witness:
  "(100 :: int) \<le> 1000 \<and> (1000 :: int) \<le> 20000 \<and> (4 :: int) \<le> 5 \<and> (5 :: int) \<le> 30
   \<and> (\<exists>sizes times_list w'.
          measure_times \<lparr>perf_counter = (\<lambda>k. of_nat k), rng = (\<lambda>k j. j), savefig = (\<lambda>a s t. [])\<rparr>
            linear_search 1000 5 \<lparr>reads = 0, draws = 0, trace = []\<rparr>
            = Inr ((sizes, times_list), w')
        \<and> 0 < length sizes
        \<and> (of_nat 0 :: rat) \<le> of_nat 1
        \<and> times_list ! 0 = fsub (of_nat 1) (of_nat 0)
        \<and> 0 \<le> times_list ! 0
        \<and> trace w' = concat (map (\<lambda>k. [Clock_read (2 * k),
                                         Invoke (Call_algorithm linear_search (sizes ! k)),
                                         Clock_read (2 * k + 1)])
                                [0..<length sizes]))"
proof -
  let ?env = "\<lparr>perf_counter = (\<lambda>k. of_nat k :: rat), rng = (\<lambda>k j. j), savefig = (\<lambda>a s t. [])\<rparr>"
  let ?w = "\<lparr>reads = 0, draws = 0, trace = []\<rparr>"
  have dom: "(100 :: int) \<le> 1000" "(1000 :: int) \<le> 20000" "(4 :: int) \<le> 5" "(5 :: int) \<le> 30"
    by simp_all
  obtain sizes times_list w' where
    mt: "measure_times ?env linear_search 1000 5 ?w = Inr ((sizes, times_list), w')"
    and all: "\<forall>k < length sizes.
               times_list ! k = fsub (perf_counter ?env (reads ?w + 2 * k + 1))
                                     (perf_counter ?env (reads ?w + 2 * k))
             \<and> (perf_counter ?env (reads ?w + 2 * k) \<le> perf_counter ?env (reads ?w + 2 * k + 1)
                  \<longrightarrow> 0 \<le> times_list ! k)"
    and tr: "trace w' = trace ?w @ concat (map (\<lambda>k. [Clock_read (reads ?w + 2 * k),
                                                    Invoke (timed_func ?env linear_search
                                                              (sizes ! k) (draws ?w + k)),
                                                    Clock_read (reads ?w + 2 * k + 1)])
                                           [0..<length sizes])"
    using measure_times_durations[OF dom, of ?env linear_search ?w] by blast
  obtain sizes' ds' w'' where
    mt': "measure_times ?env linear_search 1000 5 ?w = Inr ((sizes', ds'), w'')"
    and len: "length sizes' = nat 5"
    using measure_times_domain[OF dom, of ?env linear_search ?w] by blast
  from mt mt' len have pos: "0 < length sizes" by simp
  from all pos have "times_list ! 0 = fsub (of_nat 1) (of_nat 0)" and "0 \<le> times_list ! 0"
    by auto
  with mt pos tr show ?thesis by auto
qed

lemma sampler_nth:
  fixes max_n steps i :: int
  assumes dom: "100 \<le> max_n" "max_n \<le> 20000" "4 \<le> steps" "steps \<le> 30"
    and i: "0 \<le> i" "i < steps"
    and lin: "linspace_int 10 max_n steps = Inr sizes"
  shows "sizes ! nat i = (if i = steps - 1 then max_n
           else \<lfloor>fadd (fmul (of_int i) (fdiv (of_int (max_n - 10)) (of_int (steps - 1)))) 10\<rfloor>)"
proof -
  have "nat i < length [0..steps - 1]" using i by simp
  moreover have "[0..steps - 1] ! nat i = i" using i by (simp add: nth_upto)
  ultimately show ?thesis
    using lin unfolding linspace_int_domain[OF dom] by (auto simp del: upto.simps)
qed

lemma sample_floor:
  fixes max_n steps i :: int
  assumes dom: "100 \<le> max_n" "max_n \<le> 20000" "4 \<le> steps" "steps \<le> 30"
    and i: "0 \<le> i" "i \<le> steps - 2"
  defines "e \<equiv> 10 + of_int i * of_int (max_n - 10) / of_int (steps - 1) :: rat"
  defines "y \<equiv> fadd (fmul (of_int i) (fdiv (of_int (max_n - 10)) (of_int (steps - 1)))) 10"
  shows "\<lfloor>e\<rfloor> - 1 \<le> \<lfloor>y\<rfloor>" and "\<lfloor>y\<rfloor> \<le> \<lfloor>e\<rfloor>"
    and "\<not> (steps - 1) dvd i * (max_n - 10) \<Longrightarrow> \<lfloor>y\<rfloor> = \<lfloor>e\<rfloor>"
proof -
  define N where "N = 10 * (steps - 1) + i * (max_n - 10)"
  define D where "D = steps - 1"
  have D: "1 \<le> D" "D \<le> 29" using dom by (simp_all add: D_def)
  have dpos: "(0::rat) < of_int D" using D by simp
  have e: "e = of_int N / of_int D"
    using dpos by (simp add: e_def N_def D_def[symmetric] field_simps)
  have near: "\<bar>y - of_int N / of_int D\<bar> \<le> 1 / 1000"
    using sample_analysis(2)[OF dom i] unfolding y_def e[symmetric] e_def by simp
  show "\<lfloor>e\<rfloor> - 1 \<le> \<lfloor>y\<rfloor>" unfolding e by (rule floor_near_fraction(1)[OF D near])
  show "\<lfloor>y\<rfloor> \<le> \<lfloor>e\<rfloor>" unfolding e by (rule floor_near_fraction(2)[OF D near])
  assume nd: "\<not> (steps - 1) dvd i * (max_n - 10)"
  have "\<not> D dvd N"
  proof
    assume "D dvd N"
    moreover have "D dvd 10 * (steps - 1)" unfolding D_def by (rule dvd_triv_right)
    ultimately have "D dvd N - 10 * (steps - 1)" by (rule dvd_diff)
    then show False using nd by (simp add: N_def D_def)
  qed
  then show "\<lfloor>y\<rfloor> = \<lfloor>e\<rfloor>" unfolding e by (rule floor_near_fraction(3)[OF D near])
qed

text \<open>
  Claim C2, as stated, fails: the sampled sizes are not the interpolation rounded to the
  nearest integer. For \<open>max_n = 101\<close> and \<open>steps = 4\<close> the size of index 2 is 70, while
  \<open>10 + 2 \<sqdot> 91 / 3 = 70.67\<close> rounds to 71.
\<close>

theorem sampler_rounding_counterexample:
  "linspace_int 10 101 4 = Inr [10, 40, 70, 101]
   \<and> [10, 40, 70, 101 :: int] ! 2 = 70
   \<and> round_half_even (10 + 2 * (101 - 10) / (4 - 1)) = 71"
  by code_simp

text \<open>
  Claim C2, amended. For every \<open>max_n\<close> in \<open>[100, 20000]\<close>, \<open>steps\<close> in \<open>[4, 30]\<close> and
  index \<open>i < steps\<close>, the \<open>i\<close>-th sampled size is the linear interpolation
  \<open>10 + i \<sqdot> (max_n - 10) / (steps - 1)\<close> evaluated in double precision and rounded down
  (floor), and the last size is \<open>max_n\<close> itself. It equals the floor of the exact
  interpolation whenever \<open>steps - 1\<close> does not divide \<open>i \<sqdot> (max_n - 10)\<close>, and is that
  floor or one less otherwise.
\<close>

theorem sampler_interpolation_floor:
  fixes max_n steps i :: int
  assumes "100 \<le> max_n" "max_n \<le> 20000" "4 \<le> steps" "steps \<le> 30" "0 \<le> i" "i < steps"
  shows "\<exists>sizes times_list w'.
           measure_times env algorithm_func max_n steps w = Inr ((sizes, times_list), w')
         \<and> sizes ! nat i =
             (if i = steps - 1 then max_n
              else \<lfloor>fadd (fmul (of_int i) (fdiv (of_int (max_n - 10)) (of_int (steps - 1)))) 10\<rfloor>)
         \<and> \<lfloor>10 + of_int i * of_int (max_n - 10) / of_int (steps - 1) :: rat\<rfloor> - 1 \<le> sizes ! nat i
         \<and> sizes ! nat i \<le> \<lfloor>10 + of_int i * of_int (max_n - 10) / of_int (steps - 1) :: rat\<rfloor>
         \<and> (\<not> (steps - 1) dvd i * (max_n - 10) \<longrightarrow>
              sizes ! nat i = \<lfloor>10 + of_int i * of_int (max_n - 10) / of_int (steps - 1) :: rat\<rfloor>)"
proof -
  note dom = assms(1-4)
  let ?e = "10 + of_int i * of_int (max_n - 10) / of_int (steps - 1) :: rat"
  let ?y = "fadd (fmul (of_int i) (fdiv (of_int (max_n - 10)) (of_int (steps - 1)))) 10"
  obtain sizes ds w' where lin: "linspace_int 10 max_n steps = Inr sizes"
    and mt: "measure_times env algorithm_func max_n steps w = Inr ((sizes, ds), w')"
    using measure_times_domain[OF dom, of env algorithm_func w] by blast
  have nth: "sizes ! nat i = (if i = steps - 1 then max_n else \<lfloor>?y\<rfloor>)"
    by (rule sampler_nth[OF dom assms(5,6) lin])
  have bounds: "\<lfloor>?e\<rfloor> - 1 \<le> sizes ! nat i \<and> sizes ! nat i \<le> \<lfloor>?e\<rfloor>
              \<and> (\<not> (steps - 1) dvd i * (max_n - 10) \<longrightarrow> sizes ! nat i = \<lfloor>?e\<rfloor>)"
  proof (cases "i = steps - 1")
    case True
    have "(of_int (steps - 1) :: rat) \<noteq> 0" using dom by simp
    then have "?e = of_int max_n" unfolding True by (simp add: field_simps)
    then have "\<lfloor>?e\<rfloor> = max_n" by simp
    then show ?thesis using nth True by simp
  next
    case False
    then have i2: "i \<le> steps - 2" using assms(6) by linarith
    from sample_floor[OF dom assms(5) i2] nth False show ?thesis by simp
  qed
  show ?thesis
    by (rule exI[of _ sizes], rule exI[of _ ds], rule exI[of _ w'])
       (use mt nth bounds in blast)
qed

theorem sampler_interpolation_floor_witness:
  "(100 :: int) \<le> 101 \<and> (101 :: int) \<le> 20000 \<and> (4 :: int) \<le> 4 \<and> (4 :: int) \<le> 30
   \<and> (0 :: int) \<le> 2 \<and> (2 :: int) < 4 \<and> \<not> ((4 :: int) - 1) dvd 2 * (101 - 10)
   \<and> (\<exists>sizes times_list w'.
          measure_times \<lparr>perf_counter = (\<lambda>k. of_nat k), rng = (\<lambda>k j. j), savefig = (\<lambda>a s t. [])\<rparr>
            linear_search 101 4 \<lparr>reads = 0, draws = 0, trace = []\<rparr>
            = Inr ((sizes, times_list), w')
        \<and> sizes ! nat 2 = 70)"
proof -
  have nd: "\<not> ((4 :: int) - 1) dvd 2 * (101 - 10)" by simp
  have fl: "\<lfloor>10 + of_int 2 * of_int (101 - 10) / of_int (4 - 1) :: rat\<rfloor> = 70"
    by (rule floor_unique) simp_all
  from sampler_interpolation_floor[of 101 4 2
          "\<lparr>perf_counter = (\<lambda>k. of_nat k), rng = (\<lambda>k j. j), savefig = (\<lambda>a s t. [])\<rparr>"
          linear_search "\<lparr>reads = 0, draws = 0, trace = []\<rparr>"]
  obtain sizes times_list w' where
    "measure_times \<lparr>perf_counter = (\<lambda>k. of_nat k), rng = (\<lambda>k j. j), savefig = (\<lambda>a s t. [])\<rparr>
            linear_search 101 4 \<lparr>reads = 0, draws = 0, trace = []\<rparr>
            = Inr ((sizes, times_list), w')"
    and "\<not> ((4 :: int) - 1) dvd 2 * (101 - 10) \<longrightarrow>
           sizes ! nat 2 = \<lfloor>10 + of_int 2 * of_int (101 - 10) / of_int (4 - 1) :: rat\<rfloor>"
    by auto
  with nd fl show ?thesis by auto
qed

subsection \<open>The request handler\<close>

text \<open>
  Claim C6. For every integer value of the request parameters, an out-of-range \<open>n\<close> or
  \<open>steps\<close> is not an error: for a supported algorithm the handler answers with status
  200 and reports \<open>max_n\<close> clamped to \<open>[100, 20000]\<close> and \<open>steps\<close> clamped to
  \<open>[4, 30]\<close>, and the measurement uses the clamped values. In particular \<open>n = 50\<close>
  becomes 100, \<open>n = 999999\<close> becomes 20000, \<open>steps = 1\<close> becomes 4 and \<open>steps = 100\<close>
  becomes 30.
\<close>

theorem analyze_clamps:
  assumes "map_of ALGORITHMS (strip (lower (args_get (arg_algo req) ''linear''))) = Some func"
  shows "\<exists>ctx dat img w'.
           analyze env req w = Inr ((Success_json ''success'' ctx dat img, 200), w')
         \<and> ctx_max_n ctx = max 100 (min (args_get (arg_n req) 1000) 20000)
         \<and> 100 \<le> ctx_max_n ctx \<and> ctx_max_n ctx \<le> 20000
         \<and> ctx_steps ctx = max 4 (min (args_get (arg_steps req) 10) 30)
         \<and> 4 \<le> ctx_steps ctx \<and> ctx_steps ctx \<le> 30
         \<and> length (data_input_sizes dat) = nat (ctx_steps ctx)
         \<and> last (data_input_sizes dat) = ctx_max_n ctx
         \<and> (arg_n req = Some 50 \<longrightarrow> ctx_max_n ctx = 100)
         \<and> (arg_n req = Some 999999 \<longrightarrow> ctx_max_n ctx = 20000)
         \<and> (arg_steps req = Some 1 \<longrightarrow> ctx_steps ctx = 4)
         \<and> (arg_steps req = Some 100 \<longrightarrow> ctx_steps ctx = 30)"
proof -
  define n where "n = max 100 (min (args_get (arg_n req) 1000) 20000)"
  define steps where "steps = max 4 (min (args_get (arg_steps req) 10) 30)"
  define algo where "algo = strip (lower (args_get (arg_algo req) ''linear''))"
  define w1 where "w1 = w\<lparr>reads := Suc (reads w), trace := trace w @ [Clock_read (reads w)]\<rparr>"
  have dom: "100 \<le> n" "n \<le> 20000" "4 \<le> steps" "steps \<le> 30"
    by (simp_all add: n_def steps_def)
  obtain sizes ds w2 where
    mt: "measure_times env func n steps w1 = Inr ((sizes, ds), w2)"
    and len: "length sizes = nat steps" and lst: "last sizes = n"
    using measure_times_domain[OF dom, of env func w1] by blast
  define ctx where "ctx = \<lparr>ctx_algorithm = algo, ctx_max_n = n, ctx_steps = steps,
      ctx_execution_time_seconds =
        py_round (fsub (perf_counter env (reads w2)) (perf_counter env (reads w))) 5\<rparr>"
  define dat where "dat = \<lparr>data_input_sizes = sizes,
      data_times_seconds = map (\<lambda>t. py_round t 6) ds\<rparr>"
  have an: "analyze env req w
          = Inr ((Success_json ''success'' ctx dat (savefig env algo sizes ds), 200),
                 w2\<lparr>reads := Suc (reads w2), trace := trace w2 @ [Clock_read (reads w2)]\<rparr>)"
    using assms mt
    by (simp add: analyze_def time_perf_counter_def Let_def ctx_def dat_def
                  n_def[symmetric] steps_def[symmetric] algo_def[symmetric] w1_def[symmetric])
  have ex: "(arg_n req = Some 50 \<longrightarrow> n = 100) \<and> (arg_n req = Some 999999 \<longrightarrow> n = 20000)
          \<and> (arg_steps req = Some 1 \<longrightarrow> steps = 4) \<and> (arg_steps req = Some 100 \<longrightarrow> steps = 30)"
    by (simp add: n_def steps_def args_get_def)
  show ?thesis
    apply (rule exI[of _ ctx], rule exI[of _ dat], rule exI[of _ "savefig env algo sizes ds"])
    apply (rule exI[of _ "w2\<lparr>reads := Suc (reads w2), trace := trace w2 @ [Clock_read (reads w2)]\<rparr>"])
    using an dom len lst ex
    by (simp add: ctx_def dat_def n_def[symmetric] steps_def[symmetric])
qed

theorem analyze_clamps_witness:
  "map_of ALGORITHMS (strip (lower (args_get (Some ''Binary '') ''linear''))) = Some binary_search
   \<and> (\<exists>ctx dat img w'.
          analyze \<lparr>perf_counter = (\<lambda>k. of_nat k), rng = (\<lambda>k j. j), savefig = (\<lambda>a s t. [])\<rparr>
            \<lparr>arg_algo = Some ''Binary '', arg_n = Some 50, arg_steps = Some 100\<rparr>
            \<lparr>reads = 0, draws = 0, trace = []\<rparr>
          = Inr ((Success_json ''success'' ctx dat img, 200), w')
        \<and> ctx_max_n ctx = 100 \<and> ctx_steps ctx = 30
        \<and> length (data_input_sizes dat) = 30 \<and> last (data_input_sizes dat) = 100)"
proof -
  have a: "map_of ALGORITHMS (strip (lower (args_get (Some ''Binary '') ''linear'')))
             = Some binary_search"
    by code_simp
  have "map_of ALGORITHMS
          (strip (lower (args_get
             (arg_algo \<lparr>arg_algo = Some ''Binary '', arg_n = Some 50, arg_steps = Some 100\<rparr>)
             ''linear''))) = Some binary_search"
    using a by simp
  from analyze_clamps[OF this,
         of "\<lparr>perf_counter = (\<lambda>k. of_nat k), rng = (\<lambda>k j. j), savefig = (\<lambda>a s t. [])\<rparr>"
            "\<lparr>reads = 0, draws = 0, trace = []\<rparr>"] a
  show ?thesis by (auto simp: args_get_def)
qed

text \<open>
  The normalisation of the identifier on code points beyond ASCII: the next line (133) and
  the no-break space (160) are trimmed as \<open>str.strip\<close> trims them, so such an
  identifier is looked up, not rejected.
\<close>

lemma strip_lower_next_line:
  "strip (lower (''LINEAR'' @ [char_of (133 :: nat)])) = ''linear''
   \<and> strip (lower ([char_of (160 :: nat)] @ ''Binary'')) = ''binary''
   \<and> map_of ALGORITHMS (strip (lower (''LINEAR'' @ [char_of (133 :: nat)]))) = Some linear_search"
  by code_simp

text \<open>
  Claim C7. For every algorithm identifier that, after lowercasing and trimming, is not a
  key of \<open>ALGORITHMS\<close>, the handler returns HTTP status 400 with an error body whose
  message enumerates the supported identifiers, and nothing has been measured: the only
  effect on the world is the read of the clock at the start of the request (no closure
  invoked, no random numbers drawn).
\<close>

theorem analyze_unknown_algorithm:
  assumes "map_of ALGORITHMS (strip (lower (args_get (arg_algo req) ''linear''))) = None"
  shows "analyze env req w =
           Inr ((Error_json ''error''
                   (''Unknown algorithm. Supported: '' @ join '', '' (map fst ALGORITHMS)),
                 400),
                w\<lparr>reads := Suc (reads w), trace := trace w @ [Clock_read (reads w)]\<rparr>)
       \<and> ''Unknown algorithm. Supported: '' @ join '', '' (map fst ALGORITHMS)
           = ''Unknown algorithm. Supported: linear, linearsearch, bubble, bubblesort, bubble_sort, binary, binarysearch, nested, nestedloops, exponential''
       \<and> invocations (trace w @ [Clock_read (reads w)]) = invocations (trace w)"
proof (intro conjI)
  show "analyze env req w =
           Inr ((Error_json ''error''
                   (''Unknown algorithm. Supported: '' @ join '', '' (map fst ALGORITHMS)),
                 400),
                w\<lparr>reads := Suc (reads w), trace := trace w @ [Clock_read (reads w)]\<rparr>)"
    using assms by (simp add: analyze_def time_perf_counter_def Let_def)
  show "''Unknown algorithm. Supported: '' @ join '', '' (map fst ALGORITHMS)
           = ''Unknown algorithm. Supported: linear, linearsearch, bubble, bubblesort, bubble_sort, binary, binarysearch, nested, nestedloops, exponential''"
    by (simp add: ALGORITHMS_def)
  show "invocations (trace w @ [Clock_read (reads w)]) = invocations (trace w)"
    by (simp add: invocations_append)
qed

theorem analyze_unknown_algorithm_witness:
  "map_of ALGORITHMS (strip (lower (args_get (Some ''quicksort'') ''linear''))) = None
   \<and> analyze \<lparr>perf_counter = (\<lambda>k. of_nat k), rng = (\<lambda>k j. j), savefig = (\<lambda>a s t. [])\<rparr>
        \<lparr>arg_algo = Some ''quicksort'', arg_n = None, arg_steps = None\<rparr>
        \<lparr>reads = 0, draws = 0, trace = []\<rparr>
     = Inr ((Error_json ''error''
               ''Unknown algorithm. Supported: linear, linearsearch, bubble, bubblesort, bubble_sort, binary, binarysearch, nested, nestedloops, exponential'',
             400),
            \<lparr>reads = 1, draws = 0, trace = [Clock_read 0]\<rparr>)"
proof -
  have a: "map_of ALGORITHMS (strip (lower (args_get (Some ''quicksort'') ''linear''))) = None"
    by code_simp
  have "map_of ALGORITHMS
          (strip (lower (args_get
             (arg_algo \<lparr>arg_algo = Some ''quicksort'', arg_n = None, arg_steps = None\<rparr>)
             ''linear''))) = None"
    using a by simp
  from analyze_unknown_algorithm[OF this,
         of "\<lparr>perf_counter = (\<lambda>k. of_nat k), rng = (\<lambda>k j. j), savefig = (\<lambda>a s t. [])\<rparr>"
            "\<lparr>reads = 0, draws = 0, trace = []\<rparr>"] a
  show ?thesis by simp
qed

subsection \<open>Persistence\<close>






end
